theory Spec2Isabelle
  imports Complex_Main "HOL-Library.Sublist" "HOL-Library.Multiset"
begin

section \<open>Strings and errors\<close>

text \<open>
  Go strings are byte sequences; they are modelled as \<open>string\<close> (a list of 8-bit
  characters).

  \<open>strings.ToLower\<close> of the Go library has two branches. For a string whose bytes are
  all below \<open>utf8.RuneSelf\<close>, which is 128, it maps the bytes of the letters A to Z to
  those of a to z and leaves every other byte alone. For any other string it returns
  \<open>strings.Map(unicode.ToLower, s)\<close>, which decodes the string as UTF-8 and maps
  every character by the case tables of Unicode (so the two bytes of U+0130 become
  the one byte of \<open>i\<close>). The first branch is \<open>map to_lower_char\<close>. The second branch
  depends on the tables of the library; the model takes it as the parameter
  \<open>mapLower\<close>, a function on strings of which nothing is assumed.
\<close>

definition to_lower_char :: "char \<Rightarrow> char" where
  "to_lower_char c =
     (let n = (of_char c :: nat) in if 65 \<le> n \<and> n \<le> 90 then char_of (n + 32) else c)"

definition isASCII :: "string \<Rightarrow> bool" where
  "isASCII s = list_all (\<lambda>c. (of_char c :: nat) < 128) s"

definition ToLower :: "(string \<Rightarrow> string) \<Rightarrow> string \<Rightarrow> string" where
  "ToLower mapLower s = (if isASCII s then map to_lower_char s else mapLower s)"

fun HasPrefix :: "string \<Rightarrow> string \<Rightarrow> bool" where
  "HasPrefix s [] = True"
| "HasPrefix [] (p # ps) = False"
| "HasPrefix (c # cs) (p # ps) = (c = p \<and> HasPrefix cs ps)"

text \<open>\<open>strings.Contains s substr\<close>: some position of \<open>s\<close> starts with \<open>substr\<close>.\<close>

fun Contains :: "string \<Rightarrow> string \<Rightarrow> bool" where
  "Contains [] substr = (substr = [])"
| "Contains (c # cs) substr = (HasPrefix (c # cs) substr \<or> Contains cs substr)"

text \<open>
  A Go \<open>error\<close> value. \<open>errors.New\<close> and \<open>fmt.Errorf\<close> without \<open>%w\<close> give an
  \<open>ErrorString\<close>; \<open>fmt.Errorf\<close> with \<open>%w\<close> gives a \<open>WrapError\<close> that carries the
  formatted message and the wrapped cause. A nil error is \<open>None\<close> of
  \<open>error option\<close>.
\<close>

datatype error = ErrorString string | WrapError string error

fun Error :: "error \<Rightarrow> string" where
  "Error (ErrorString m) = m"
| "Error (WrapError m cause) = m"

text \<open>\<open>isAuthError\<close> of the resource service.\<close>

definition isAuthError :: "(string \<Rightarrow> string) \<Rightarrow> error option \<Rightarrow> bool" where
  "isAuthError mapLower err =
     (case err of
        None \<Rightarrow> False
      | Some e \<Rightarrow>
          (let msg = ToLower mapLower (Error e) in
             Contains msg ''authfailure'' \<or>
             Contains msg ''not able to validate the provided access credentials'' \<or>
             Contains msg ''invalidclienttokenid'' \<or>
             Contains msg ''could not connect to the endpoint url''))"

text \<open>
  \<open>strings.EqualFold\<close> where one of the two strings is ASCII without the letters
  \<open>k\<close> and \<open>s\<close>, the only ASCII letters that Unicode folds together with characters
  beyond ASCII: the strings are equal up to the case of the ASCII letters. The
  program calls it with the constant \<open>not-opted-in\<close>.
\<close>

definition EqualFold :: "string \<Rightarrow> string \<Rightarrow> bool" where
  "EqualFold s t = (map to_lower_char s = map to_lower_char t)"

text \<open>\<open>strings.Join\<close>.\<close>

fun Join :: "string list \<Rightarrow> string \<Rightarrow> string" where
  "Join [] sep = ''''"
| "Join [x] sep = x"
| "Join (x # y # ys) sep = x @ sep @ Join (y # ys) sep"

section \<open>Resource types\<close>

text \<open>
  The structs of package \<open>types\<close>. Field names carry a prefix, since the fields of
  all records share one name space. A nil slice and an empty slice are both \<open>[]\<close>;
  \<open>ServiceResources{}\<close> is \<open>emptyResources\<close>. The \<open>Message\<close> field is tagged
  \<open>omitempty\<close>: the empty string means that the response carries no message.
\<close>

record EC2Instance =
  ec2_InstanceID :: string
  ec2_Name :: string
  ec2_State :: string
  ec2_InstanceType :: string
  ec2_AvailabilityZone :: string
  ec2_PrivateIP :: string
  ec2_PublicIP :: string
  ec2_Region :: string

record VPC =
  vpc_VpcID :: string
  vpc_Name :: string
  vpc_CIDRBlock :: string
  vpc_State :: string
  vpc_IsDefault :: bool
  vpc_Region :: string

record ElasticIP =
  eip_AllocationID :: string
  eip_PublicIP :: string
  eip_AssociationID :: string
  eip_InstanceID :: string
  eip_NetworkInterfaceID :: string
  eip_Domain :: string
  eip_Region :: string

record S3Bucket =
  s3_Name :: string
  s3_CreationDate :: string
  s3_Region :: string

record RekognitionCollection =
  rek_CollectionID :: string
  rek_FaceModelVersion :: string
  rek_Region :: string

record RDSInstance =
  rds_DBInstanceIdentifier :: string
  rds_Engine :: string
  rds_Status :: string
  rds_DBInstanceClass :: string
  rds_AvailabilityZone :: string
  rds_Endpoint :: string
  rds_Region :: string

record ServiceResources =
  Service :: string
  EC2 :: "EC2Instance list"
  VPCs :: "VPC list"
  ElasticIPs :: "ElasticIP list"
  S3Buckets :: "S3Bucket list"
  RekognitionCollections :: "RekognitionCollection list"
  RDSInstances :: "RDSInstance list"
  Message :: string

definition emptyResources :: ServiceResources where
  "emptyResources =
     \<lparr>Service = '''', EC2 = [], VPCs = [], ElasticIPs = [], S3Buckets = [],
      RekognitionCollections = [], RDSInstances = [], Message = ''''\<rparr>"

section \<open>The executor and the decoded command output\<close>

text \<open>
  \<open>Executor.RunJSON\<close> takes the argument list of one command and returns its output
  and an error. The executor is an interface of the program, so it is a parameter of
  the model. \<open>RunJSON\<close> below is the instrumented call: beside the executor's answer
  it gives the list of invocations made, here the one invocation.
\<close>

type_synonym Executor = "string list \<Rightarrow> string \<times> error option"

definition RunJSON :: "Executor \<Rightarrow> string list \<Rightarrow> (string \<times> error option) \<times> string list list" where
  "RunJSON exec args = (exec args, [args])"

text \<open>The anonymous structs that \<open>json.Unmarshal\<close> fills.\<close>

record Tag =
  Key :: string
  Val :: string

record describedInstance =
  di_InstanceID :: string
  di_InstanceType :: string
  di_PrivateIP :: string
  di_PublicIP :: string
  di_StateName :: string
  di_AvailabilityZone :: string
  di_Tags :: "Tag list"

record reservation =
  Instances :: "describedInstance list"

record ec2DescribeInstancesOutput =
  Reservations :: "reservation list"

record rekognitionListCollectionsOutput =
  CollectionIDs :: "string list"
  FaceModelVersions :: "string list"

record describedRegion =
  RegionName :: string
  OptInStatus :: string

text \<open>
  The functions of the Go library that the resource service calls and that the model
  takes as parameters. \<open>json.Unmarshal\<close> is one decoder for each target struct; a
  decoder either fails with an error or gives the filled struct. \<open>mapToLower\<close> is the
  branch of \<open>strings.ToLower\<close> for strings that are not ASCII, the argument
  \<open>mapLower\<close> of \<open>ToLower\<close>.
\<close>

record Library =
  unmarshalInstances :: "string \<Rightarrow> error + ec2DescribeInstancesOutput"
  unmarshalCollections :: "string \<Rightarrow> error + rekognitionListCollectionsOutput"
  unmarshalRegions :: "string \<Rightarrow> error + describedRegion list"
  mapToLower :: "string \<Rightarrow> string"

text \<open>\<open>fmt.Errorf(pfx + ": %w", err)\<close>.\<close>

definition Errorf_w :: "string \<Rightarrow> error \<Rightarrow> error" where
  "Errorf_w pfx err = WrapError (pfx @ '': '' @ Error err) err"

section \<open>EC2 instances of one region\<close>

fun nameTag :: "Tag list \<Rightarrow> string" where
  "nameTag [] = ''''"
| "nameTag (t # ts) = (if Key t = ''Name'' then Val t else nameTag ts)"

definition instanceRegion :: "string \<Rightarrow> string \<Rightarrow> string" where
  "instanceRegion region az =
     (if region = '''' \<and> az \<noteq> '''' then (if length az > 1 then butlast az else region)
      else region)"

definition projectInstance :: "string \<Rightarrow> describedInstance \<Rightarrow> EC2Instance" where
  "projectInstance region inst =
     \<lparr>ec2_InstanceID = di_InstanceID inst,
      ec2_Name = nameTag (di_Tags inst),
      ec2_State = di_StateName inst,
      ec2_InstanceType = di_InstanceType inst,
      ec2_AvailabilityZone = di_AvailabilityZone inst,
      ec2_PrivateIP = di_PrivateIP inst,
      ec2_PublicIP = di_PublicIP inst,
      ec2_Region = instanceRegion region (di_AvailabilityZone inst)\<rparr>"

definition regionArgs :: "string list \<Rightarrow> string \<Rightarrow> string list" where
  "regionArgs args region = (if region \<noteq> '''' then args @ [''--region'', region] else args)"

definition getEC2InstancesSingleRegion ::
  "Executor \<Rightarrow> Library \<Rightarrow> string \<Rightarrow> (ServiceResources \<times> error option) \<times> string list list" where
  "getEC2InstancesSingleRegion exec js region =
     (let args = regionArgs [''ec2'', ''describe-instances''] region;
          ((out, err), calls) = RunJSON exec args
      in case err of
           Some e \<Rightarrow> ((emptyResources, Some e), calls)
         | None \<Rightarrow>
             (case unmarshalInstances js out of
                Inl e \<Rightarrow>
                  ((emptyResources,
                    Some (Errorf_w ''failed to parse describe-instances output'' e)), calls)
              | Inr resp \<Rightarrow>
                  ((emptyResources
                      \<lparr>Service := ''ec2'',
                       EC2 := concat (map (\<lambda>r. map (projectInstance region) (Instances r))
                                         (Reservations resp))\<rparr>,
                    None), calls)))"

section \<open>Rekognition collections of one region\<close>

text \<open>
  Reading a Go slice at an index outside its bounds panics; \<open>index\<close> makes the panic
  a value. The loop of the projection is \<open>collectionsFrom\<close>: \<open>i\<close> is the position of
  the first remaining identifier.
\<close>

datatype panic = IndexOutOfRange nat nat

definition index :: "'a list \<Rightarrow> nat \<Rightarrow> panic + 'a" where
  "index xs i = (if i < length xs then Inr (xs ! i) else Inl (IndexOutOfRange i (length xs)))"

fun collectionsFrom ::
  "string \<Rightarrow> string list \<Rightarrow> nat \<Rightarrow> string list \<Rightarrow> RekognitionCollection list
     \<Rightarrow> panic + RekognitionCollection list" where
  "collectionsFrom region versions i [] collections = Inr collections"
| "collectionsFrom region versions i (cid # ids) collections =
     (case (if i < length versions then index versions i else Inr '''') of
        Inl p \<Rightarrow> Inl p
      | Inr faceModel \<Rightarrow>
          collectionsFrom region versions (Suc i) ids
            (collections @
               [\<lparr>rek_CollectionID = cid, rek_FaceModelVersion = faceModel,
                 rek_Region = region\<rparr>]))"

definition projectCollections ::
  "string \<Rightarrow> rekognitionListCollectionsOutput \<Rightarrow> panic + RekognitionCollection list" where
  "projectCollections region resp =
     collectionsFrom region (FaceModelVersions resp) 0 (CollectionIDs resp) []"

text \<open>
  The result of a function that may panic: \<open>Inl\<close> is the panic, \<open>Inr\<close> the returned
  pair of value and error with the executor invocations.
\<close>

definition getRekognitionCollectionsSingleRegion ::
  "Executor \<Rightarrow> Library \<Rightarrow> string
     \<Rightarrow> panic + ((ServiceResources \<times> error option) \<times> string list list)" where
  "getRekognitionCollectionsSingleRegion exec js region =
     (let args = regionArgs [''rekognition'', ''list-collections''] region;
          ((out, err), calls) = RunJSON exec args
      in case err of
           Some e \<Rightarrow> Inr ((emptyResources, Some e), calls)
         | None \<Rightarrow>
             (case unmarshalCollections js out of
                Inl e \<Rightarrow>
                  Inr ((emptyResources,
                        Some (Errorf_w ''failed to parse list-collections output'' e)), calls)
              | Inr resp \<Rightarrow>
                  (case projectCollections region resp of
                     Inl p \<Rightarrow> Inl p
                   | Inr collections \<Rightarrow>
                       Inr ((emptyResources
                               \<lparr>Service := ''rekognition'',
                                RekognitionCollections := collections\<rparr>,
                             None), calls))))"

section \<open>The region list\<close>

definition listRegions ::
  "Executor \<Rightarrow> Library \<Rightarrow> (string list \<times> error option) \<times> string list list" where
  "listRegions exec js =
     (let ((out, err), calls) = RunJSON exec [''ec2'', ''describe-regions'', ''--all-regions'']
      in case err of
           Some e \<Rightarrow> (([], Some e), calls)
         | None \<Rightarrow>
             (case unmarshalRegions js out of
                Inl e \<Rightarrow>
                  (([], Some (Errorf_w ''failed to parse describe-regions output'' e)), calls)
              | Inr payload \<Rightarrow>
                  ((map RegionName
                      (filter (\<lambda>r. RegionName r \<noteq> '''' \<and>
                                   \<not> EqualFold (OptInStatus r) ''not-opted-in'') payload),
                    None), calls)))"

section \<open>EC2 instances of all regions\<close>

text \<open>
  \<open>getEC2InstancesAllRegions\<close> starts one goroutine for each region, a goroutine that
  closes the result channel once all of them are done, and then drains the channel.
  The goroutines are modelled as an interleaving of atomic steps. The state holds
  what they share: the phase of every worker, the number of tokens in the semaphore
  channel \<open>sem\<close>, the buffered channel \<open>resultsCh\<close> with its closed flag, the
  variables of the calling goroutine, and the executor invocations in the order in
  which they were started.
\<close>

text \<open>The phases of one worker goroutine, in the order in which it passes them.\<close>

datatype worker =
    NotSpawned  \<comment> \<open>the \<open>go\<close> statement for this region has not run yet\<close>
  | Ready       \<comment> \<open>spawned, before \<open>sem <- struct{}{}\<close>\<close>
  | Running     \<comment> \<open>holds a token, the call of the single-region fetch is in flight\<close>
  | Sent        \<comment> \<open>the result is on \<open>resultsCh\<close>, the token is still held\<close>
  | Released    \<comment> \<open>the deferred \<open><-sem\<close> has run\<close>
  | Finished    \<comment> \<open>the deferred \<open>wg.Done()\<close> has run\<close>

text \<open>The local struct \<open>result\<close>.\<close>

record result =
  region :: string
  instances :: "EC2Instance list"
  err :: "error option"

text \<open>What the worker for a region puts on the channel.\<close>

definition regionResult :: "Executor \<Rightarrow> Library \<Rightarrow> string \<Rightarrow> result" where
  "regionResult exec js rgn =
     (let ((res, e), calls) = getEC2InstancesSingleRegion exec js rgn
      in case e of
           Some e' \<Rightarrow> \<lparr>region = rgn, instances = [], err = Some e'\<rparr>
         | None \<Rightarrow> \<lparr>region = rgn, instances = EC2 res, err = None\<rparr>)"

text \<open>
  The calling goroutine: it spawns the workers, then ranges over the channel with the
  accumulators \<open>all\<close> and \<open>skipped\<close>, and at last it has returned.
\<close>

datatype coordinator =
    Spawning
  | Collecting "EC2Instance list" "string list"
  | Returned "ServiceResources \<times> error option"

record aggregation =
  workers :: "(string \<times> worker) list"
  spawned :: nat
  sem :: nat
  resultsCh :: "result list"
  closed :: bool
  coordinator :: coordinator
  invocations :: "string list list"

definition maxConcurrent :: nat where
  "maxConcurrent = 5"

definition start :: "string list \<Rightarrow> aggregation" where
  "start regions =
     \<lparr>workers = map (\<lambda>r. (r, NotSpawned)) regions, spawned = 0, sem = 0, resultsCh = [],
      closed = False, coordinator = Spawning, invocations = []\<rparr>"

text \<open>The body of the range loop for one received result.\<close>

definition collect ::
  "(string \<Rightarrow> string) \<Rightarrow> result \<Rightarrow> EC2Instance list \<Rightarrow> string list \<Rightarrow> coordinator" where
  "collect mapLower r all skipped =
     (if err r \<noteq> None then
        (if isAuthError mapLower (err r) then Collecting all (skipped @ [region r])
         else Returned (emptyResources, err r))
      else Collecting (all @ instances r) skipped)"

text \<open>The code after the range loop.\<close>

definition finish :: "EC2Instance list \<Rightarrow> string list \<Rightarrow> ServiceResources \<times> error option" where
  "finish all skipped =
     (let msg = (if length skipped > 0
                 then ''Skipped regions due to authentication errors: '' @ Join skipped '', ''
                 else '''')
      in (emptyResources\<lparr>Service := ''ec2'', EC2 := all, Message := msg\<rparr>, None))"

text \<open>
  The atomic steps. A step that the state does not enable (a goroutine that is blocked
  or is somewhere else in its code) gives \<open>None\<close>.
\<close>

datatype action =
    Spawn            \<comment> \<open>\<open>wg.Add(1)\<close> and the \<open>go\<close> statement for the next region\<close>
  | StartCollecting  \<comment> \<open>the closing goroutine is started and the range loop entered\<close>
  | Acquire nat      \<comment> \<open>worker \<open>i\<close> sends on \<open>sem\<close> and invokes the executor\<close>
  | Complete nat     \<comment> \<open>the call of worker \<open>i\<close> returns, the result is sent on \<open>resultsCh\<close>\<close>
  | Release nat      \<comment> \<open>worker \<open>i\<close> receives from \<open>sem\<close>\<close>
  | Done nat         \<comment> \<open>worker \<open>i\<close> calls \<open>wg.Done()\<close>\<close>
  | Close            \<comment> \<open>\<open>wg.Wait()\<close> returns and \<open>resultsCh\<close> is closed\<close>
  | Receive          \<comment> \<open>the range loop receives a result, or ends on the closed channel\<close>

fun step :: "Executor \<Rightarrow> Library \<Rightarrow> action \<Rightarrow> aggregation \<Rightarrow> aggregation option" where
  "step exec js Spawn s =
     (if coordinator s = Spawning \<and> spawned s < length (workers s) then
        Some (s\<lparr>workers := (workers s)[spawned s := (fst (workers s ! spawned s), Ready)],
               spawned := Suc (spawned s)\<rparr>)
      else None)"
| "step exec js StartCollecting s =
     (if coordinator s = Spawning \<and> spawned s = length (workers s) then
        Some (s\<lparr>coordinator := Collecting [] []\<rparr>)
      else None)"
| "step exec js (Acquire i) s =
     (if i < length (workers s) \<and> snd (workers s ! i) = Ready \<and> sem s < maxConcurrent then
        Some (s\<lparr>workers := (workers s)[i := (fst (workers s ! i), Running)],
               sem := Suc (sem s),
               invocations := invocations s @
                 snd (getEC2InstancesSingleRegion exec js (fst (workers s ! i)))\<rparr>)
      else None)"
| "step exec js (Complete i) s =
     (if i < length (workers s) \<and> snd (workers s ! i) = Running \<and>
         length (resultsCh s) < length (workers s) then
        Some (s\<lparr>workers := (workers s)[i := (fst (workers s ! i), Sent)],
               resultsCh := resultsCh s @ [regionResult exec js (fst (workers s ! i))]\<rparr>)
      else None)"
| "step exec js (Release i) s =
     (if i < length (workers s) \<and> snd (workers s ! i) = Sent \<and> 0 < sem s then
        Some (s\<lparr>workers := (workers s)[i := (fst (workers s ! i), Released)],
               sem := sem s - 1\<rparr>)
      else None)"
| "step exec js (Done i) s =
     (if i < length (workers s) \<and> snd (workers s ! i) = Released then
        Some (s\<lparr>workers := (workers s)[i := (fst (workers s ! i), Finished)]\<rparr>)
      else None)"
| "step exec js Close s =
     (if coordinator s \<noteq> Spawning \<and> \<not> closed s \<and>
         list_all (\<lambda>w. snd w = Finished) (workers s) then
        Some (s\<lparr>closed := True\<rparr>)
      else None)"
| "step exec js Receive s =
     (case coordinator s of
        Collecting all skipped \<Rightarrow>
          (case resultsCh s of
             r # rest \<Rightarrow> Some (s\<lparr>resultsCh := rest, coordinator := collect (mapToLower js) r all skipped\<rparr>)
           | [] \<Rightarrow>
               (if closed s then Some (s\<lparr>coordinator := Returned (finish all skipped)\<rparr>)
                else None))
      | _ \<Rightarrow> None)"

text \<open>A schedule is the list of steps that the scheduler picks, in order.\<close>

fun run :: "Executor \<Rightarrow> Library \<Rightarrow> action list \<Rightarrow> aggregation \<Rightarrow> aggregation option" where
  "run exec js [] s = Some s"
| "run exec js (a # as) s =
     (case step exec js a s of None \<Rightarrow> None | Some s' \<Rightarrow> run exec js as s')"

text \<open>The number of single-region calls in flight, and of semaphore tokens held.\<close>

definition inFlight :: "aggregation \<Rightarrow> nat" where
  "inFlight s = length (filter (\<lambda>w. snd w = Running) (workers s))"

definition holding :: "aggregation \<Rightarrow> nat" where
  "holding s = length (filter (\<lambda>w. snd w = Running \<or> snd w = Sent) (workers s))"

text \<open>
  The call under a schedule: the region list is fetched first; the value is what the
  calling goroutine has returned when the schedule ends, with the executor
  invocations made until then, and \<open>None\<close> when the schedule is not one of the
  program or ends before the call has returned.
\<close>

definition getEC2InstancesAllRegions ::
  "Executor \<Rightarrow> Library \<Rightarrow> action list
     \<Rightarrow> ((ServiceResources \<times> error option) \<times> string list list) option" where
  "getEC2InstancesAllRegions exec js sched =
     (let ((regions, e), calls) = listRegions exec js
      in case e of
           Some e' \<Rightarrow> Some ((emptyResources, Some e'), calls)
         | None \<Rightarrow>
             (case run exec js sched (start regions) of
                None \<Rightarrow> None
              | Some s \<Rightarrow>
                  (case coordinator s of
                     Returned x \<Rightarrow> Some (x, calls @ invocations s)
                   | _ \<Rightarrow> None)))"

definition getEC2Instances ::
  "Executor \<Rightarrow> Library \<Rightarrow> action list \<Rightarrow> string
     \<Rightarrow> ((ServiceResources \<times> error option) \<times> string list list) option" where
  "getEC2Instances exec js sched rgn =
     (if ToLower (mapToLower js) rgn = ''all'' then getEC2InstancesAllRegions exec js sched
      else Some (getEC2InstancesSingleRegion exec js rgn))"

section \<open>The TTL cache\<close>

text \<open>
  Package \<open>cache\<close>. A \<open>time.Time\<close> is a number of nanoseconds on the clock, and a
  \<open>time.Duration\<close> a number of nanoseconds; both are unbounded integers here. The
  value of \<open>time.Now()\<close> is an argument \<open>now\<close> of the operation that reads the clock,
  and the zero value of the type parameter \<open>V\<close> is the argument \<open>zero\<close>. \<open>Get\<close> takes
  the read lock and writes nothing: the cache it gives back is the one it was given.
\<close>

record 'v entry =
  val :: 'v
  expiresAt :: int

record 'v Cache =
  data :: "string \<rightharpoonup> 'v entry"
  ttl :: int

definition New :: "int \<Rightarrow> 'v Cache" where
  "New t = \<lparr>data = Map.empty, ttl = t\<rparr>"

definition Get :: "int \<Rightarrow> 'v \<Rightarrow> 'v Cache \<Rightarrow> string \<Rightarrow> ('v \<times> bool) \<times> 'v Cache" where
  "Get now zero c k =
     (case data c k of
        None \<Rightarrow> ((zero, False), c)
      | Some e \<Rightarrow> if now > expiresAt e then ((zero, False), c) else ((val e, True), c))"

definition Set :: "int \<Rightarrow> 'v Cache \<Rightarrow> string \<Rightarrow> 'v \<Rightarrow> 'v Cache" where
  "Set now c k v = c\<lparr>data := (data c)(k \<mapsto> \<lparr>val = v, expiresAt = now + ttl c\<rparr>)\<rparr>"

definition Clear :: "'v Cache \<Rightarrow> 'v Cache" where
  "Clear c = c\<lparr>data := Map.empty\<rparr>"

text \<open>The operations on a cache, for statements about sequences of them.\<close>

datatype 'v cacheOp = GetOp string | SetOp string 'v | ClearOp

fun applyOp :: "'v \<Rightarrow> int \<times> 'v cacheOp \<Rightarrow> 'v Cache \<Rightarrow> 'v Cache" where
  "applyOp zero (now, GetOp k) c = snd (Get now zero c k)"
| "applyOp zero (now, SetOp k v) c = Set now c k v"
| "applyOp zero (now, ClearOp) c = Clear c"

fun touches :: "string \<Rightarrow> 'v cacheOp \<Rightarrow> bool" where
  "touches k (GetOp k') = False"
| "touches k (SetOp k' v) = (k' = k)"
| "touches k ClearOp = True"

section \<open>The caching resource service\<close>

text \<open>
  \<open>cachedResourceService.GetResources\<close>. The inner service is an interface value and
  so a parameter. The profile manager is \<open>None\<close> when the pointer is nil and
  otherwise holds what \<open>ActiveID()\<close> returns. The clock is read once by \<open>Get\<close> and,
  after the inner call, once by \<open>Set\<close>.
\<close>

type_synonym ResourceService = "string \<Rightarrow> string \<Rightarrow> ServiceResources \<times> error option"

definition cacheKey :: "(string \<Rightarrow> string) \<Rightarrow> string option \<Rightarrow> string \<Rightarrow> string \<Rightarrow> string" where
  "cacheKey mapLower pm service rgn =
     (let activeProfile = (case pm of
                             None \<Rightarrow> ''system''
                           | Some aid \<Rightarrow> if aid \<noteq> '''' then aid else ''system'')
      in activeProfile @ ''|'' @ ToLower mapLower service @ ''|'' @ ToLower mapLower rgn)"

definition cachedGetResources ::
  "(string \<Rightarrow> string) \<Rightarrow> ResourceService \<Rightarrow> string option \<Rightarrow> int \<Rightarrow> int
     \<Rightarrow> ServiceResources Cache \<Rightarrow> string \<Rightarrow> string
     \<Rightarrow> (ServiceResources \<times> error option) \<times> ServiceResources Cache" where
  "cachedGetResources mapLower inner pm nowGet nowSet c service rgn =
     (let k = cacheKey mapLower pm service rgn;
          ((cached, ok), c1) = Get nowGet emptyResources c k
      in if ok then ((cached, None), c1)
         else (case inner service rgn of
                 (res, Some e) \<Rightarrow> ((emptyResources, Some e), c1)
               | (res, None) \<Rightarrow> ((res, None), Set nowSet c1 k res)))"

section \<open>The HTTP handlers for resources\<close>

text \<open>More of package \<open>strings\<close>.\<close>

definition TrimPrefix :: "string \<Rightarrow> string \<Rightarrow> string" where
  "TrimPrefix s p = (if HasPrefix s p then drop (length p) s else s)"

definition Trim :: "string \<Rightarrow> string \<Rightarrow> string" where
  "Trim s cutset =
     rev (dropWhile (\<lambda>c. c \<in> set cutset) (rev (dropWhile (\<lambda>c. c \<in> set cutset) s)))"

function splitFrom :: "string \<Rightarrow> string \<Rightarrow> string \<Rightarrow> string list" where
  "splitFrom sep cur s =
     (if s = [] then [cur]
      else if sep \<noteq> [] \<and> HasPrefix s sep then cur # splitFrom sep [] (drop (length sep) s)
      else splitFrom sep (cur @ [hd s]) (tl s))"
  by pat_completeness auto
termination
  by (relation "measure (\<lambda>(sep, cur, s). length s)") auto

declare splitFrom.simps [simp del]

text \<open>
  \<open>strings.Split\<close>: the pieces between the occurrences of a separator; for the empty
  separator, the single characters.
\<close>

definition Split :: "string \<Rightarrow> string \<Rightarrow> string list" where
  "Split s sep = (if sep = [] then map (\<lambda>c. [c]) s else splitFrom sep [] s)"

text \<open>
  A request is its method, the path of its URL and the value that \<open>URL.Query().Get\<close>
  gives for a name. A response is the status code, the content type and the value
  that was encoded as the JSON body.
\<close>

record request =
  Method :: string
  Path :: string
  Query :: "string \<Rightarrow> string"

record errorResponse =
  er_Error :: string
  er_Details :: string

record ResourceSummary =
  rs_Service :: string
  rs_DisplayName :: string
  rs_ResourceType :: string
  rs_Count :: int

datatype body =
    NoBody
  | ErrorBody errorResponse
  | ResourcesBody ServiceResources
  | SummaryBody "ResourceSummary list"

record response =
  status :: nat
  contentType :: string
  content :: body

definition writeJSON :: "nat \<Rightarrow> body \<Rightarrow> response" where
  "writeJSON st v = \<lparr>status = st, contentType = ''application/json'', content = v\<rparr>"

text \<open>\<open>w.WriteHeader(code)\<close> with nothing written after it.\<close>

definition WriteHeader :: "nat \<Rightarrow> response" where
  "WriteHeader st = \<lparr>status = st, contentType = '''', content = NoBody\<rparr>"

definition handleServiceResources :: "ResourceService \<Rightarrow> request \<Rightarrow> response" where
  "handleServiceResources getResources r =
     (if Method r \<noteq> ''GET'' then WriteHeader 405
      else
        let path = TrimPrefix (Path r) ''/api/services/'' in
        if path = '''' then
          writeJSON 400 (ErrorBody \<lparr>er_Error = ''Service name is required'', er_Details = ''''\<rparr>)
        else
          let parts = Split (Trim path ''/'') ''/'' in
          if length parts < 2 \<or> parts ! 1 \<noteq> ''resources'' then
            writeJSON 404 (ErrorBody \<lparr>er_Error = ''Not found'', er_Details = ''''\<rparr>)
          else
            let service = parts ! 0;
                rgn = Query r ''region''
            in case getResources service rgn of
                 (resources, Some e) \<Rightarrow>
                   writeJSON 500
                     (ErrorBody \<lparr>er_Error = ''Failed to fetch resources'', er_Details = Error e\<rparr>)
               | (resources, None) \<Rightarrow> writeJSON 200 (ResourcesBody resources))"

text \<open>\<open>handleResourcesSummary\<close>: the local struct \<open>svcDef\<close> and the fixed list.\<close>

record svcDef =
  svc_Key :: string
  svc_DisplayName :: string
  svc_ResourceKey :: string

definition servicesToCheck :: "svcDef list" where
  "servicesToCheck =
     [\<lparr>svc_Key = ''ec2'', svc_DisplayName = ''EC2'', svc_ResourceKey = ''ec2Instances''\<rparr>,
      \<lparr>svc_Key = ''vpc'', svc_DisplayName = ''VPC'', svc_ResourceKey = ''vpcs''\<rparr>,
      \<lparr>svc_Key = ''eip'', svc_DisplayName = ''Elastic IPs'', svc_ResourceKey = ''elasticIps''\<rparr>,
      \<lparr>svc_Key = ''s3'', svc_DisplayName = ''S3'', svc_ResourceKey = ''s3Buckets''\<rparr>,
      \<lparr>svc_Key = ''rekognition'', svc_DisplayName = ''Rekognition'',
       svc_ResourceKey = ''rekognitionCollections''\<rparr>,
      \<lparr>svc_Key = ''rds'', svc_DisplayName = ''RDS'', svc_ResourceKey = ''rdsInstances''\<rparr>]"

text \<open>
  The local struct \<open>result\<close> of the handler. \<open>GetResources\<close> is the instrumented call
  of the resource service: beside the answer it gives the list of calls made, each
  with its service and its region selector.
\<close>

record summaryResult =
  sr_Svc :: svcDef
  sr_Count :: int
  sr_Err :: "error option"

definition GetResources ::
  "ResourceService \<Rightarrow> string \<Rightarrow> string
     \<Rightarrow> (ServiceResources \<times> error option) \<times> (string \<times> string) list" where
  "GetResources getResources service rgn = (getResources service rgn, [(service, rgn)])"

definition countFor :: "string \<Rightarrow> ServiceResources \<Rightarrow> int" where
  "countFor resourceKey res =
     (if resourceKey = ''ec2Instances'' then int (length (EC2 res))
      else if resourceKey = ''vpcs'' then int (length (VPCs res))
      else if resourceKey = ''elasticIps'' then int (length (ElasticIPs res))
      else if resourceKey = ''s3Buckets'' then int (length (S3Buckets res))
      else if resourceKey = ''rekognitionCollections'' then
        int (length (RekognitionCollections res))
      else if resourceKey = ''rdsInstances'' then int (length (RDSInstances res))
      else 0)"

text \<open>The body of the goroutine for one service: what it sends, and the calls it makes.\<close>

definition summarise ::
  "ResourceService \<Rightarrow> svcDef \<Rightarrow> summaryResult \<times> (string \<times> string) list" where
  "summarise getResources svc =
     (let ((res, err), calls) = GetResources getResources (svc_Key svc) ''all''
      in case err of
           Some e \<Rightarrow> (\<lparr>sr_Svc = svc, sr_Count = 0, sr_Err = Some e\<rparr>, calls)
         | None \<Rightarrow>
             (\<lparr>sr_Svc = svc, sr_Count = countFor (svc_ResourceKey svc) res, sr_Err = None\<rparr>,
              calls))"

text \<open>The receiving loop over the results in the order in which they arrive.\<close>

fun receiveSummaries :: "summaryResult list \<Rightarrow> ResourceSummary list \<Rightarrow> ResourceSummary list" where
  "receiveSummaries [] summaries = summaries"
| "receiveSummaries (r # rs) summaries =
     (if sr_Err r \<noteq> None then receiveSummaries rs summaries
      else receiveSummaries rs
             (summaries @
                [\<lparr>rs_Service = svc_Key (sr_Svc r), rs_DisplayName = svc_DisplayName (sr_Svc r),
                  rs_ResourceType = svc_ResourceKey (sr_Svc r), rs_Count = sr_Count r\<rparr>]))"

text \<open>
  The handler starts one goroutine for each element of \<open>servicesToCheck\<close> and then
  receives as many results as the list has elements. Every goroutine sends exactly one
  result on a channel that has room for all of them, so the results arrive in the
  order in which the goroutines complete. That order is the argument \<open>order\<close>: the
  positions of \<open>servicesToCheck\<close>, each once. A list that is no rearrangement of the
  positions is no run of the handler and gives \<open>None\<close>. The value is the response and
  the calls of the resource service, in the order of completion. A request with
  another method is answered before any goroutine is started.
\<close>

definition handleResourcesSummary ::
  "ResourceService \<Rightarrow> nat list \<Rightarrow> request \<Rightarrow> (response \<times> (string \<times> string) list) option" where
  "handleResourcesSummary getResources order r =
     (if Method r \<noteq> ''GET'' then Some (WriteHeader 405, [])
      else if mset order \<noteq> mset [0..<length servicesToCheck] then None
      else
        let results = map (\<lambda>i. summarise getResources (servicesToCheck ! i)) order
        in Some (writeJSON 200 (SummaryBody (receiveSummaries (map fst results) [])),
                 concat (map snd results)))"

section \<open>Cost totals\<close>




















section \<open>What a region's call gives, and the invariants of the aggregation\<close>

text \<open>
  The error and the records of the single-region call for a region, as the worker
  sees them.
\<close>

definition regionError :: "Executor \<Rightarrow> Library \<Rightarrow> string \<Rightarrow> error option" where
  "regionError exec js rgn = snd (fst (getEC2InstancesSingleRegion exec js rgn))"

definition regionRecords :: "Executor \<Rightarrow> Library \<Rightarrow> string \<Rightarrow> EC2Instance list" where
  "regionRecords exec js rgn = EC2 (fst (fst (getEC2InstancesSingleRegion exec js rgn)))"

text \<open>
  The predicates below are used in the proofs only. \<open>sentResults\<close> lists the results
  of the workers that have sent; \<open>nonFatal\<close> holds for a success and for a skippable
  failure.
\<close>

fun hasSent :: "worker \<Rightarrow> bool" where
  "hasSent Sent = True"
| "hasSent Released = True"
| "hasSent Finished = True"
| "hasSent _ = False"

definition sentResults :: "Executor \<Rightarrow> Library \<Rightarrow> (string \<times> worker) list \<Rightarrow> result list" where
  "sentResults exec js ws =
     map (\<lambda>w. regionResult exec js (fst w)) (filter (\<lambda>w. hasSent (snd w)) ws)"

definition nonFatal :: "(string \<Rightarrow> string) \<Rightarrow> result \<Rightarrow> bool" where
  "nonFatal mapLower r = (err r = None \<or> isAuthError mapLower (err r))"

definition succeeded :: "result \<Rightarrow> bool" where
  "succeeded r = (err r = None)"

text \<open>
  The workers are those of the region list, in its order, and the ones not yet spawned
  are exactly those from position \<open>spawned\<close> on.
\<close>

definition wellSpawned :: "string list \<Rightarrow> aggregation \<Rightarrow> bool" where
  "wellSpawned regions s =
     (map fst (workers s) = regions \<and> spawned s \<le> length (workers s) \<and>
      (\<forall>i. spawned s \<le> i \<longrightarrow> i < length (workers s) \<longrightarrow> snd (workers s ! i) = NotSpawned))"

text \<open>The semaphore holds one token for each worker between its acquire and its release.\<close>

definition tokensHeld :: "aggregation \<Rightarrow> bool" where
  "tokensHeld s = (sem s = holding s \<and> sem s \<le> maxConcurrent)"

text \<open>The channel is closed only after every worker is done.\<close>

definition closedLate :: "aggregation \<Rightarrow> bool" where
  "closedLate s = (closed s \<longrightarrow> list_all (\<lambda>w. snd w = Finished) (workers s))"

text \<open>A return without an error happens only on the closed channel.\<close>

definition returnedClosed :: "aggregation \<Rightarrow> bool" where
  "returnedClosed s =
     (case coordinator s of Returned x \<Rightarrow> snd x = None \<longrightarrow> closed s | _ \<Rightarrow> True)"

text \<open>
  What the call may return for a region list: if no region fails fatally, the merged
  records of the regions that succeeded and the names of the failed ones, each in
  some order; otherwise the empty value with the error of a region that failed
  fatally.
\<close>

definition goodReturn ::
  "Executor \<Rightarrow> Library \<Rightarrow> string list \<Rightarrow> ServiceResources \<times> error option \<Rightarrow> bool" where
  "goodReturn exec js regions x =
     (let rs = map (regionResult exec js) regions in
        if list_all (nonFatal (mapToLower js)) rs then
          (\<exists>all skipped. x = finish all skipped \<and>
             mset all = mset (concat (map instances (filter succeeded rs))) \<and>
             mset skipped = mset (map region (filter (\<lambda>r. \<not> succeeded r) rs)))
        else (\<exists>r. r \<in> set rs \<and> \<not> nonFatal (mapToLower js) r \<and> x = (emptyResources, err r)))"

text \<open>
  The results sent so far are the ones received, \<open>rcv\<close>, and the ones on the channel;
  the accumulators of the range loop hold what the received ones give.
\<close>

definition collectedBy ::
  "Executor \<Rightarrow> Library \<Rightarrow> string list \<Rightarrow> (string \<times> worker) list \<Rightarrow> result list
     \<Rightarrow> coordinator \<Rightarrow> bool" where
  "collectedBy exec js regions ws ch co =
     (case co of
        Spawning \<Rightarrow> mset (sentResults exec js ws) = mset ch
      | Collecting all skipped \<Rightarrow>
          (\<exists>rcv. mset (sentResults exec js ws) = mset rcv + mset ch \<and>
             all = concat (map instances (filter succeeded rcv)) \<and>
             skipped = map region (filter (\<lambda>r. \<not> succeeded r) rcv) \<and>
             list_all (nonFatal (mapToLower js)) rcv)
      | Returned x \<Rightarrow> goodReturn exec js regions x)"

definition collected :: "Executor \<Rightarrow> Library \<Rightarrow> string list \<Rightarrow> aggregation \<Rightarrow> bool" where
  "collected exec js regions s =
     collectedBy exec js regions (workers s) (resultsCh s) (coordinator s)"

definition invariant :: "Executor \<Rightarrow> Library \<Rightarrow> string list \<Rightarrow> aggregation \<Rightarrow> bool" where
  "invariant exec js regions s =
     (wellSpawned regions s \<and> tokensHeld s \<and> closedLate s \<and> returnedClosed s \<and>
      collected exec js regions s)"

text \<open>
  For the proof that the call returns: the workers before position \<open>spawned\<close> have been
  spawned, and all of them once the range loop has begun; the channel never holds
  more results than workers have sent, so a send on it never blocks.
\<close>

definition spawnedFirst :: "aggregation \<Rightarrow> bool" where
  "spawnedFirst s =
     ((\<forall>i. i < spawned s \<longrightarrow> i < length (workers s) \<longrightarrow> snd (workers s ! i) \<noteq> NotSpawned) \<and>
      (coordinator s \<noteq> Spawning \<longrightarrow> spawned s = length (workers s)))"

definition channelFits :: "aggregation \<Rightarrow> bool" where
  "channelFits s =
     (length (resultsCh s) \<le> length (filter (\<lambda>w. hasSent (snd w)) (workers s)))"

definition progressing :: "string list \<Rightarrow> aggregation \<Rightarrow> bool" where
  "progressing regions s =
     (wellSpawned regions s \<and> tokensHeld s \<and> spawnedFirst s \<and> channelFits s)"

text \<open>
  Every step takes the aggregation nearer to its end: \<open>remaining\<close> bounds the number
  of steps that can still be taken.
\<close>

fun rank :: "worker \<Rightarrow> nat" where
  "rank NotSpawned = 5"
| "rank Ready = 4"
| "rank Running = 3"
| "rank Sent = 2"
| "rank Released = 1"
| "rank Finished = 0"

fun coordinatorRank :: "coordinator \<Rightarrow> nat" where
  "coordinatorRank Spawning = 2"
| "coordinatorRank (Collecting all skipped) = 1"
| "coordinatorRank (Returned x) = 0"

definition remaining :: "aggregation \<Rightarrow> nat" where
  "remaining s =
     2 * sum_list (map (\<lambda>w. rank (snd w)) (workers s)) + length (resultsCh s) +
     (if closed s then 0 else 1) + coordinatorRank (coordinator s)"

fun hasReturned :: "coordinator \<Rightarrow> bool" where
  "hasReturned (Returned x) = True"
| "hasReturned _ = False"

section \<open>The classification of errors in the words of the specification\<close>

text \<open>
  The specification speaks of the lower-cased message of an error and of a
  case-insensitive match. Both are defined here without the arithmetic on byte values
  that the library uses: the lower-case letter of a character is looked up in the
  alphabet, and two characters are the same letter when that letter is the same. The
  lower-cased message of an ASCII message is the message with every character
  replaced by its lower-case letter; for the lower-cased form of any other message
  the specification can only mean what the library gives, \<open>mapLower\<close>. A phrase
  occurs in a message, letter case ignored, when some position of the message starts
  with characters that are, one by one, the same letters as those of the phrase.
\<close>

definition upperCaseLetters :: string where
  "upperCaseLetters = ''ABCDEFGHIJKLMNOPQRSTUVWXYZ''"

definition lowerCaseLetters :: string where
  "lowerCaseLetters = ''abcdefghijklmnopqrstuvwxyz''"

definition lowerCaseOf :: "char \<Rightarrow> char" where
  "lowerCaseOf c =
     (case map_of (zip upperCaseLetters lowerCaseLetters) c of Some l \<Rightarrow> l | None \<Rightarrow> c)"

definition lowerCased :: "(string \<Rightarrow> string) \<Rightarrow> string \<Rightarrow> string" where
  "lowerCased mapLower msg = (if isASCII msg then map lowerCaseOf msg else mapLower msg)"

definition sameLetter :: "char \<Rightarrow> char \<Rightarrow> bool" where
  "sameLetter c d = (lowerCaseOf c = lowerCaseOf d)"

definition occursIgnoringCase :: "string \<Rightarrow> string \<Rightarrow> bool" where
  "occursIgnoringCase phrase msg =
     list_ex (\<lambda>i. list_all2 sameLetter (take (length phrase) (drop i msg)) phrase)
       [0..<Suc (length msg)]"

section \<open>A stubbed executor\<close>

text \<open>
  A fixed executor and library for concrete runs: three regions \<open>A\<close>, \<open>B\<close> and \<open>C\<close>
  with two instances in \<open>A\<close> and three in \<open>B\<close>. The stub takes the answer for region
  \<open>C\<close> as an argument. The outputs are short tokens in place of JSON text, and the
  stub decoder maps each token to the struct that the JSON text would give. The stub
  of the non-ASCII branch of \<open>strings.ToLower\<close> knows the ASCII letters and one more
  upper-case letter, U+0130, whose two bytes it maps to \<open>i\<close> as the library does; any
  other byte it leaves alone.
\<close>

fun stubMapToLower :: "string \<Rightarrow> string" where
  "stubMapToLower [] = []"
| "stubMapToLower [c] = [to_lower_char c]"
| "stubMapToLower (c # d # cs) =
     (if c = CHR 0xC4 \<and> d = CHR 0xB0 then CHR ''i'' # stubMapToLower cs
      else to_lower_char c # stubMapToLower (d # cs))"

definition stubInstance :: "string \<Rightarrow> string \<Rightarrow> describedInstance" where
  "stubInstance iid az =
     \<lparr>di_InstanceID = iid, di_InstanceType = ''t3.micro'', di_PrivateIP = ''10.0.0.1'',
      di_PublicIP = '''', di_StateName = ''running'', di_AvailabilityZone = az,
      di_Tags = [\<lparr>Key = ''Env'', Val = ''test''\<rparr>, \<lparr>Key = ''Name'', Val = iid\<rparr>]\<rparr>"

definition stubExec :: "string \<times> error option \<Rightarrow> Executor" where
  "stubExec answerC args =
     (if args = [''ec2'', ''describe-regions'', ''--all-regions''] then (''regions'', None)
      else if args = [''ec2'', ''describe-instances'', ''--region'', ''A''] then (''in A'', None)
      else if args = [''ec2'', ''describe-instances'', ''--region'', ''B''] then (''in B'', None)
      else if args = [''ec2'', ''describe-instances'', ''--region'', ''C''] then answerC
      else ('''', Some (ErrorString ''aws cli error: unknown command'')))"

definition stubLibrary :: Library where
  "stubLibrary =
     \<lparr>unmarshalInstances = (\<lambda>out.
        if out = ''in A'' then
          Inr \<lparr>Reservations = [\<lparr>Instances = [stubInstance ''i-a1'' ''Aa'']\<rparr>,
                                \<lparr>Instances = [stubInstance ''i-a2'' ''Ab'']\<rparr>]\<rparr>
        else if out = ''in B'' then
          Inr \<lparr>Reservations = [\<lparr>Instances = [stubInstance ''i-b1'' ''Ba'',
                                              stubInstance ''i-b2'' ''Ba'',
                                              stubInstance ''i-b3'' ''Bb'']\<rparr>]\<rparr>
        else if out = ''in C'' then
          Inr \<lparr>Reservations = [\<lparr>Instances = [stubInstance ''i-c1'' ''Ca'']\<rparr>]\<rparr>
        else Inl (ErrorString ''unexpected end of JSON input'')),
      unmarshalCollections = (\<lambda>out.
        if out = ''collections'' then
          Inr \<lparr>CollectionIDs = [''faces'', ''staff'', ''guests''],
               FaceModelVersions = [''6.0'']\<rparr>
        else Inl (ErrorString ''unexpected end of JSON input'')),
      unmarshalRegions = (\<lambda>out.
        if out = ''regions'' then
          Inr [\<lparr>RegionName = ''A'', OptInStatus = ''opt-in-not-required''\<rparr>,
               \<lparr>RegionName = ''B'', OptInStatus = ''opted-in''\<rparr>,
               \<lparr>RegionName = ''D'', OptInStatus = ''Not-Opted-In''\<rparr>,
               \<lparr>RegionName = ''C'', OptInStatus = ''opt-in-not-required''\<rparr>]
        else Inl (ErrorString ''unexpected end of JSON input'')),
      mapToLower = stubMapToLower\<rparr>"

definition authFailure :: "string \<times> error option" where
  "authFailure =
     ('''', Some (ErrorString
        ''aws cli error: An error occurred (AuthFailure) when calling the DescribeInstances operation''))"

definition internalError :: "string \<times> error option" where
  "internalError = ('''', Some (ErrorString ''aws cli error: internal server error''))"

text \<open>
  A message that is not ASCII: it has the phrase \<open>authfailure\<close> in upper case, with
  the two bytes of U+0130 in the place of the letter I.
\<close>

definition dottedMessage :: string where
  "dottedMessage = ''aws cli error: AUTHFA'' @ [CHR 0xC4, CHR 0xB0] @ ''LURE''"

text \<open>
  Two schedules for three regions. In \<open>schedule1\<close> the calls of \<open>A\<close> and \<open>C\<close> overlap,
  \<open>C\<close> completes first, and the call returns after the channel is closed. In
  \<open>schedule2\<close> the result of \<open>C\<close> is received while the call for \<open>A\<close> is in flight and
  \<open>B\<close> has not started.
\<close>

definition schedule1 :: "action list" where
  "schedule1 =
     [Spawn, Spawn, Acquire 0, Spawn, StartCollecting, Acquire 2, Complete 2, Receive,
      Release 2, Acquire 1, Complete 0, Complete 1, Receive, Done 2, Release 1, Release 0,
      Done 0, Done 1, Receive, Close, Receive]"

definition schedule2 :: "action list" where
  "schedule2 =
     [Spawn, Spawn, Spawn, Acquire 2, Acquire 0, StartCollecting, Complete 2, Receive]"

text \<open>
  Six regions whose workers are all spawned, with five of them holding a token and
  their calls in flight.
\<close>

definition sixRegions :: "string list" where
  "sixRegions = [''A'', ''B'', ''C'', ''D'', ''E'', ''F'']"

definition schedule3 :: "action list" where
  "schedule3 =
     [Spawn, Spawn, Spawn, Spawn, Spawn, Spawn,
      Acquire 0, Acquire 1, Acquire 2, Acquire 3, Acquire 4]"

text \<open>The state that \<open>schedule2\<close> leads to when region \<open>C\<close> fails with an internal error.\<close>

definition returnedEarly :: aggregation where
  "returnedEarly =
     \<lparr>workers = [(''A'', Running), (''B'', Ready), (''C'', Sent)], spawned = 3, sem = 2,
      resultsCh = [], closed = False,
      coordinator =
        Returned (emptyResources, Some (ErrorString ''aws cli error: internal server error'')),
      invocations = [[''ec2'', ''describe-instances'', ''--region'', ''C''],
                     [''ec2'', ''describe-instances'', ''--region'', ''A'']]\<rparr>"

text \<open>A resource service whose every call fails, and two requests.\<close>

definition failingService :: ResourceService where
  "failingService service rgn =
     (emptyResources, Some (ErrorString ''aws cli error: internal server error''))"

text \<open>
  A resource service that answers for \<open>ec2\<close> with two instances, for \<open>s3\<close> with one
  bucket and for \<open>vpc\<close> with no VPC, and that fails for every other service; and an
  order in which the six calls of the summary handler complete.
\<close>

definition mixedService :: ResourceService where
  "mixedService service rgn =
     (if service = ''ec2'' then
        (emptyResources
           \<lparr>Service := ''ec2'',
            EC2 := [projectInstance ''A'' (stubInstance ''i-a1'' ''Aa''),
                    projectInstance ''B'' (stubInstance ''i-b1'' ''Ba'')]\<rparr>, None)
      else if service = ''s3'' then
        (emptyResources
           \<lparr>Service := ''s3'',
            S3Buckets := [\<lparr>s3_Name = ''logs'', s3_CreationDate = ''2024-05-01'',
                           s3_Region = ''A''\<rparr>]\<rparr>, None)
      else if service = ''vpc'' then (emptyResources\<lparr>Service := ''vpc''\<rparr>, None)
      else (emptyResources, Some (ErrorString ''aws cli error: internal server error'')))"

definition completionOrder :: "nat list" where
  "completionOrder = [3, 0, 5, 1, 4, 2]"

definition summaryRequest :: request where
  "summaryRequest =
     \<lparr>Method = ''GET'', Path = ''/api/resources/summary'', Query = (\<lambda>name. '''')\<rparr>"

definition resourcesRequest :: request where
  "resourcesRequest =
     \<lparr>Method = ''GET'', Path = ''/api/services/ec2/resources'',
      Query = (\<lambda>name. if name = ''region'' then ''all'' else '''')\<rparr>"





section \<open>Properties of the string helpers\<close>

lemma HasPrefix_iff_prefix: "HasPrefix s p \<longleftrightarrow> prefix p s"
  by (induction s p rule: HasPrefix.induct) auto

lemma Contains_iff_sublist: "Contains s substr \<longleftrightarrow> sublist substr s"
proof (induction s)
  case Nil
  show ?case by simp
next
  case (Cons c cs)
  show ?case
    using Cons.IH by (simp add: sublist_Cons_right HasPrefix_iff_prefix)
qed

section \<open>Classification of skippable errors\<close>

text \<open>
  The lower-casing of the library on ASCII strings, which adds 32 to the bytes from 65
  to 90, is the lookup in the alphabet: the two agree on each of the 256 bytes.
\<close>

lemma to_lower_char_bits:
  "to_lower_char (Char b0 b1 b2 b3 b4 b5 b6 b7) = lowerCaseOf (Char b0 b1 b2 b3 b4 b5 b6 b7)"
  by (cases b0; cases b1; cases b2; cases b3; cases b4; cases b5; cases b6; cases b7;
      simp add: to_lower_char_def lowerCaseOf_def upperCaseLetters_def lowerCaseLetters_def
        char_of_def bit_Suc_0_iff)

lemma to_lower_char_table: "to_lower_char c = lowerCaseOf c"
  by (cases c) (simp only: to_lower_char_bits)

lemma ToLower_lowerCased: "ToLower mapLower msg = lowerCased mapLower msg"
  by (simp add: ToLower_def lowerCased_def to_lower_char_table)

lemma sublist_iff_take_drop:
  "sublist p xs \<longleftrightarrow> (\<exists>i\<le>length xs. take (length p) (drop i xs) = p)"
proof
  assume "sublist p xs"
  then obtain ps ss where xs: "xs = ps @ p @ ss"
    by (auto simp: sublist_def)
  then have "length ps \<le> length xs" and "take (length p) (drop (length ps) xs) = p"
    by simp_all
  then show "\<exists>i\<le>length xs. take (length p) (drop i xs) = p"
    by blast
next
  assume "\<exists>i\<le>length xs. take (length p) (drop i xs) = p"
  then obtain i where i: "take (length p) (drop i xs) = p"
    by blast
  have "xs = take i xs @ take (length p) (drop i xs) @ drop (length p) (drop i xs)"
    by (simp only: append_take_drop_id)
  then have "xs = take i xs @ p @ drop (length p) (drop i xs)"
    using i by simp
  then show "sublist p xs"
    unfolding sublist_def by blast
qed

lemma map_eq_iff_sameLetter:
  assumes "\<forall>q\<in>set p. lowerCaseOf q = q"
  shows "map lowerCaseOf ys = p \<longleftrightarrow> list_all2 sameLetter ys p"
proof -
  have "map lowerCaseOf ys = p \<longleftrightarrow> list_all2 (\<lambda>c q. lowerCaseOf c = q) ys p"
    by (simp add: list_all2_eq [of "map lowerCaseOf ys" p] list_all2_map1)
  also have "\<dots> \<longleftrightarrow> list_all2 sameLetter ys p"
    using assms by (auto simp: list_all2_conv_all_nth sameLetter_def)
  finally show ?thesis .
qed

lemma Contains_lower_iff_occurs:
  assumes "\<forall>q\<in>set p. lowerCaseOf q = q"
  shows "Contains (map to_lower_char msg) p \<longleftrightarrow> occursIgnoringCase p msg"
proof -
  have f: "map to_lower_char msg = map lowerCaseOf msg"
    by (simp add: to_lower_char_table)
  have "Contains (map to_lower_char msg) p \<longleftrightarrow>
      (\<exists>i\<le>length msg. map lowerCaseOf (take (length p) (drop i msg)) = p)"
    by (simp add: Contains_iff_sublist f sublist_iff_take_drop take_map drop_map)
  also have "\<dots> \<longleftrightarrow> (\<exists>i\<le>length msg. list_all2 sameLetter (take (length p) (drop i msg)) p)"
    by (simp add: map_eq_iff_sameLetter [OF assms])
  also have "\<dots> \<longleftrightarrow>
      (\<exists>i\<in>set [0..<Suc (length msg)]. list_all2 sameLetter (take (length p) (drop i msg)) p)"
    by (simp only: set_upt) (auto simp: less_Suc_eq_le)
  also have "\<dots> \<longleftrightarrow> occursIgnoringCase p msg"
    by (simp only: occursIgnoringCase_def list_ex_iff)
  finally show ?thesis .
qed

lemma phrases_lower_case:
  "\<forall>q\<in>set ''authfailure''. lowerCaseOf q = q"
  "\<forall>q\<in>set ''not able to validate the provided access credentials''. lowerCaseOf q = q"
  "\<forall>q\<in>set ''invalidclienttokenid''. lowerCaseOf q = q"
  "\<forall>q\<in>set ''could not connect to the endpoint url''. lowerCaseOf q = q"
  by (simp_all add: lowerCaseOf_def upperCaseLetters_def lowerCaseLetters_def)

text \<open>
  Claim C3. For every non-nil error \<open>e\<close> and every behaviour \<open>mapLower\<close> of the
  library on messages that are not ASCII: \<open>isAuthError\<close> holds of \<open>e\<close> exactly when
  the lower-cased message of \<open>e\<close> has one of the four phrases as a contiguous
  substring; for an ASCII message that is exactly when one of the four phrases occurs
  in the message itself, letter case ignored; and the range loop of the aggregator,
  on receiving the result of a region with the error \<open>e\<close>, adds the region to the
  skipped ones and goes on when \<open>isAuthError\<close> holds of \<open>e\<close>, and returns \<open>e\<close> with
  the empty value otherwise.
\<close>

theorem isAuthError_iff_phrase:
  "(isAuthError mapLower (Some e) \<longleftrightarrow>
      sublist ''authfailure'' (lowerCased mapLower (Error e)) \<or>
      sublist ''not able to validate the provided access credentials''
        (lowerCased mapLower (Error e)) \<or>
      sublist ''invalidclienttokenid'' (lowerCased mapLower (Error e)) \<or>
      sublist ''could not connect to the endpoint url'' (lowerCased mapLower (Error e))) \<and>
   (isASCII (Error e) \<longrightarrow>
      (isAuthError mapLower (Some e) \<longleftrightarrow>
         occursIgnoringCase ''authfailure'' (Error e) \<or>
         occursIgnoringCase ''not able to validate the provided access credentials'' (Error e) \<or>
         occursIgnoringCase ''invalidclienttokenid'' (Error e) \<or>
         occursIgnoringCase ''could not connect to the endpoint url'' (Error e))) \<and>
   collect mapLower \<lparr>region = rgn, instances = found, err = Some e\<rparr> all skipped =
     (if isAuthError mapLower (Some e) then Collecting all (skipped @ [rgn])
      else Returned (emptyResources, Some e))"
proof -
  have a: "isAuthError mapLower (Some e) \<longleftrightarrow>
      sublist ''authfailure'' (lowerCased mapLower (Error e)) \<or>
      sublist ''not able to validate the provided access credentials''
        (lowerCased mapLower (Error e)) \<or>
      sublist ''invalidclienttokenid'' (lowerCased mapLower (Error e)) \<or>
      sublist ''could not connect to the endpoint url'' (lowerCased mapLower (Error e))"
    by (simp only: isAuthError_def option.case Let_def Contains_iff_sublist ToLower_lowerCased)
  have b: "isAuthError mapLower (Some e) \<longleftrightarrow>
         occursIgnoringCase ''authfailure'' (Error e) \<or>
         occursIgnoringCase ''not able to validate the provided access credentials'' (Error e) \<or>
         occursIgnoringCase ''invalidclienttokenid'' (Error e) \<or>
         occursIgnoringCase ''could not connect to the endpoint url'' (Error e)"
    if "isASCII (Error e)"
  proof -
    have "ToLower mapLower (Error e) = map to_lower_char (Error e)"
      using that by (simp add: ToLower_def)
    then show ?thesis
      by (simp only: isAuthError_def option.case Let_def
          Contains_lower_iff_occurs [OF phrases_lower_case(1)]
          Contains_lower_iff_occurs [OF phrases_lower_case(2)]
          Contains_lower_iff_occurs [OF phrases_lower_case(3)]
          Contains_lower_iff_occurs [OF phrases_lower_case(4)])
  qed
  have c: "collect mapLower \<lparr>region = rgn, instances = found, err = Some e\<rparr> all skipped =
     (if isAuthError mapLower (Some e) then Collecting all (skipped @ [rgn])
      else Returned (emptyResources, Some e))"
    by (simp add: collect_def)
  from a b c show ?thesis
    by blast
qed

theorem isAuthError_iff_phrase_witness:
  "isASCII ''aws cli error: An error occurred (AuthFailure) when calling the DescribeInstances operation'' \<and>
   isAuthError stubMapToLower
     (Some (ErrorString
        ''aws cli error: An error occurred (AuthFailure) when calling the DescribeInstances operation'')) \<and>
   collect stubMapToLower
     \<lparr>region = ''C'', instances = [],
      err = Some (ErrorString
        ''aws cli error: An error occurred (AuthFailure) when calling the DescribeInstances operation'')\<rparr>
     [] [''B''] = Collecting [] [''B'', ''C''] \<and>
   isASCII ''aws cli error: internal server error'' \<and>
   \<not> isAuthError stubMapToLower (Some (ErrorString ''aws cli error: internal server error'')) \<and>
   collect stubMapToLower
     \<lparr>region = ''C'', instances = [],
      err = Some (ErrorString ''aws cli error: internal server error'')\<rparr>
     [] [''B''] =
     Returned (emptyResources, Some (ErrorString ''aws cli error: internal server error'')) \<and>
   \<not> isASCII dottedMessage \<and>
   isAuthError stubMapToLower (Some (ErrorString dottedMessage))"
proof -
  let ?auth = "ErrorString
    ''aws cli error: An error occurred (AuthFailure) when calling the DescribeInstances operation''"
  let ?internal = "ErrorString ''aws cli error: internal server error''"
  let ?dotted = "ErrorString dottedMessage"
  note auth = isAuthError_iff_phrase [where mapLower = stubMapToLower and e = ?auth
      and rgn = "''C''" and found = "[]" and all = "[]" and skipped = "[''B'']"]
  note internal = isAuthError_iff_phrase [where mapLower = stubMapToLower and e = ?internal
      and rgn = "''C''" and found = "[]" and all = "[]" and skipped = "[''B'']"]
  note dotted = isAuthError_iff_phrase [where mapLower = stubMapToLower and e = ?dotted
      and rgn = "''C''" and found = "[]" and all = "[]" and skipped = "[''B'']"]
  have a1: "isASCII (Error ?auth)"
    by code_simp
  have a2: "occursIgnoringCase ''authfailure'' (Error ?auth)"
    by code_simp
  have a3: "isAuthError stubMapToLower (Some ?auth)"
    using auth a1 a2 by blast
  have a4: "collect stubMapToLower \<lparr>region = ''C'', instances = [], err = Some ?auth\<rparr> [] [''B''] =
      Collecting [] [''B'', ''C'']"
    using auth a3 by simp
  have i1: "isASCII (Error ?internal)"
    by code_simp
  have i2: "\<not> occursIgnoringCase ''authfailure'' (Error ?internal)"
    "\<not> occursIgnoringCase ''not able to validate the provided access credentials''
         (Error ?internal)"
    "\<not> occursIgnoringCase ''invalidclienttokenid'' (Error ?internal)"
    "\<not> occursIgnoringCase ''could not connect to the endpoint url'' (Error ?internal)"
    by code_simp+
  have i3: "\<not> isAuthError stubMapToLower (Some ?internal)"
    using internal i1 i2 by blast
  have i4: "collect stubMapToLower \<lparr>region = ''C'', instances = [], err = Some ?internal\<rparr>
      [] [''B''] = Returned (emptyResources, Some ?internal)"
    using internal i3 by simp
  have d1: "\<not> isASCII dottedMessage"
    by code_simp
  have d2: "sublist ''authfailure'' (lowerCased stubMapToLower (Error ?dotted))"
    by code_simp
  have d3: "isAuthError stubMapToLower (Some ?dotted)"
    using dotted d2 by blast
  from a1 a3 a4 i1 i3 i4 d1 d3 show ?thesis
    by simp
qed

section \<open>Lists under a point update\<close>

lemma nth_split: "i < length ws \<Longrightarrow> ws = take i ws @ ws ! i # drop (Suc i) ws"
  by (simp add: id_take_nth_drop)

lemma filter_length_update_same:
  assumes "i < length ws" and "P (ws ! i) = P v"
  shows "length (filter P (ws[i := v])) = length (filter P ws)"
proof -
  have "length (filter P ws) = length (filter P (take i ws @ ws ! i # drop (Suc i) ws))"
    using nth_split [OF assms(1)] by simp
  then show ?thesis
    using assms by (simp add: upd_conv_take_nth_drop)
qed

lemma filter_length_update_gain:
  assumes "i < length ws" and "\<not> P (ws ! i)" and "P v"
  shows "length (filter P (ws[i := v])) = Suc (length (filter P ws))"
proof -
  have "length (filter P ws) = length (filter P (take i ws @ ws ! i # drop (Suc i) ws))"
    using nth_split [OF assms(1)] by simp
  then show ?thesis
    using assms by (simp add: upd_conv_take_nth_drop)
qed

lemma filter_length_update_lose:
  assumes "i < length ws" and "P (ws ! i)" and "\<not> P v"
  shows "Suc (length (filter P (ws[i := v]))) = length (filter P ws)"
proof -
  have "length (filter P ws) = length (filter P (take i ws @ ws ! i # drop (Suc i) ws))"
    using nth_split [OF assms(1)] by simp
  then show ?thesis
    using assms by (simp add: upd_conv_take_nth_drop)
qed

lemma map_fst_update: "i < length ws \<Longrightarrow> map fst (ws[i := (fst (ws ! i), w)]) = map fst ws"
  by (simp add: map_update list_update_same_conv)

lemma sentResults_update_same:
  assumes "i < length ws" and "hasSent (snd (ws ! i)) = hasSent w"
  shows "mset (sentResults exec js (ws[i := (fst (ws ! i), w)])) = mset (sentResults exec js ws)"
proof -
  have "sentResults exec js ws = sentResults exec js (take i ws @ ws ! i # drop (Suc i) ws)"
    using nth_split [OF assms(1)] by simp
  then show ?thesis
    using assms by (simp add: upd_conv_take_nth_drop sentResults_def)
qed

lemma sentResults_update_gain:
  assumes "i < length ws" and "\<not> hasSent (snd (ws ! i))" and "hasSent w"
  shows "mset (sentResults exec js (ws[i := (fst (ws ! i), w)])) =
         add_mset (regionResult exec js (fst (ws ! i))) (mset (sentResults exec js ws))"
proof -
  have "sentResults exec js ws = sentResults exec js (take i ws @ ws ! i # drop (Suc i) ws)"
    using nth_split [OF assms(1)] by simp
  then show ?thesis
    using assms by (simp add: upd_conv_take_nth_drop sentResults_def)
qed

section \<open>The invariants are kept by every step\<close>

lemma wellSpawned_step:
  assumes "wellSpawned regions s" and "step exec js a s = Some s'"
  shows "wellSpawned regions s'"
proof (cases a)
  case Spawn
  with assms show ?thesis
    by (auto simp: wellSpawned_def map_fst_update nth_list_update split: if_splits)
next
  case StartCollecting
  with assms show ?thesis by (auto simp: wellSpawned_def split: if_splits)
next
  case (Acquire i)
  with assms show ?thesis
    by (auto simp: wellSpawned_def map_fst_update nth_list_update split: if_splits)
next
  case (Complete i)
  with assms show ?thesis
    by (auto simp: wellSpawned_def map_fst_update nth_list_update split: if_splits)
next
  case (Release i)
  with assms show ?thesis
    by (auto simp: wellSpawned_def map_fst_update nth_list_update split: if_splits)
next
  case (Done i)
  with assms show ?thesis
    by (auto simp: wellSpawned_def map_fst_update nth_list_update split: if_splits)
next
  case Close
  with assms show ?thesis by (auto simp: wellSpawned_def split: if_splits)
next
  case Receive
  with assms show ?thesis
    by (auto simp: wellSpawned_def split: if_splits coordinator.splits list.splits)
qed

lemma tokensHeld_step:
  assumes "tokensHeld s" and "wellSpawned regions s" and "step exec js a s = Some s'"
  shows "tokensHeld s'"
proof (cases a)
  case Spawn
  with assms show ?thesis
    by (auto simp: tokensHeld_def holding_def wellSpawned_def filter_length_update_same split: if_splits)
next
  case StartCollecting
  with assms show ?thesis by (auto simp: tokensHeld_def holding_def split: if_splits)
next
  case (Acquire i)
  with assms show ?thesis
    by (auto simp: tokensHeld_def holding_def filter_length_update_gain split: if_splits)
next
  case (Complete i)
  with assms show ?thesis
    by (auto simp: tokensHeld_def holding_def filter_length_update_same split: if_splits)
next
  case (Release i)
  have "Suc (length (filter (\<lambda>w. snd w = Running \<or> snd w = Sent)
           ((workers s)[i := (fst (workers s ! i), Released)]))) =
        length (filter (\<lambda>w. snd w = Running \<or> snd w = Sent) (workers s))"
    if "i < length (workers s)" and "snd (workers s ! i) = Sent"
    using that by (intro filter_length_update_lose) auto
  with Release assms show ?thesis
    by (auto simp: tokensHeld_def holding_def split: if_splits)
next
  case (Done i)
  with assms show ?thesis
    by (auto simp: tokensHeld_def holding_def filter_length_update_same split: if_splits)
next
  case Close
  with assms show ?thesis by (auto simp: tokensHeld_def holding_def split: if_splits)
next
  case Receive
  with assms show ?thesis
    by (auto simp: tokensHeld_def holding_def split: if_splits coordinator.splits list.splits)
qed

lemma closedLate_step:
  assumes "closedLate s" and "wellSpawned regions s" and "step exec js a s = Some s'"
  shows "closedLate s'"
proof (cases a)
  case Spawn
  with assms show ?thesis
    by (auto simp: closedLate_def wellSpawned_def list_all_length split: if_splits)
next
  case StartCollecting
  with assms show ?thesis by (auto simp: closedLate_def split: if_splits)
next
  case (Acquire i)
  with assms show ?thesis
    by (auto simp: closedLate_def list_all_length split: if_splits)
next
  case (Complete i)
  with assms show ?thesis
    by (auto simp: closedLate_def list_all_length split: if_splits)
next
  case (Release i)
  with assms show ?thesis
    by (auto simp: closedLate_def list_all_length split: if_splits)
next
  case (Done i)
  with assms show ?thesis
    by (auto simp: closedLate_def list_all_length nth_list_update split: if_splits)
next
  case Close
  with assms show ?thesis by (auto simp: closedLate_def split: if_splits)
next
  case Receive
  with assms show ?thesis
    by (auto simp: closedLate_def split: if_splits coordinator.splits list.splits)
qed

lemma returnedClosed_step:
  assumes "returnedClosed s" and "step exec js a s = Some s'"
  shows "returnedClosed s'"
proof (cases a)
  case Receive
  with assms show ?thesis
    by (auto simp: returnedClosed_def collect_def finish_def Let_def
        split: if_splits coordinator.splits list.splits)
next
  case Close
  with assms show ?thesis
    by (auto simp: returnedClosed_def split: if_splits coordinator.splits)
qed (use assms in \<open>auto simp: returnedClosed_def split: if_splits coordinator.splits\<close>)

lemma all_finished_sent:
  assumes "list_all (\<lambda>w. snd w = Finished) ws"
  shows "sentResults exec js ws = map (regionResult exec js) (map fst ws)"
  using assms by (induction ws) (auto simp: sentResults_def)

lemma sentResults_subset:
  "set (sentResults exec js ws) \<subseteq> set (map (regionResult exec js) (map fst ws))"
  by (auto simp: sentResults_def)

lemma mset_concat_cong:
  assumes "mset xs = mset ys"
  shows "mset (concat (map f (filter P xs))) = mset (concat (map f (filter P ys)))"
proof -
  have "mset (concat (map f (filter P zs))) = (\<Sum>z\<in>#filter_mset P (mset zs). mset (f z))" for zs
    by (induction zs) auto
  with assms show ?thesis by simp
qed

lemma mset_map_filter_cong:
  assumes "mset xs = mset ys"
  shows "mset (map f (filter P xs)) = mset (map f (filter P ys))"
proof -
  have "mset (map f (filter P zs)) = image_mset f (filter_mset P (mset zs))" for zs
    by simp
  with assms show ?thesis by simp
qed

lemma list_all_mset_cong:
  assumes "mset xs = mset ys" and "list_all P xs"
  shows "list_all P ys"
  using assms by (metis list_all_iff mset_eq_setD)

lemma collectedBy_worker_same:
  assumes "collectedBy exec js regions ws ch co" and "i < length ws"
    and "hasSent (snd (ws ! i)) = hasSent w"
  shows "collectedBy exec js regions (ws[i := (fst (ws ! i), w)]) ch co"
  using assms by (auto simp add: collectedBy_def sentResults_update_same split: coordinator.splits)

lemma collectedBy_complete:
  assumes "collectedBy exec js regions ws ch co" and "i < length ws"
    and "snd (ws ! i) = Running"
  shows "collectedBy exec js regions (ws[i := (fst (ws ! i), Sent)])
           (ch @ [regionResult exec js (fst (ws ! i))]) co"
  using assms by (auto simp add: collectedBy_def sentResults_update_gain split: coordinator.splits)

lemma collectedBy_receive:
  assumes inv: "collectedBy exec js regions ws (r # rest) (Collecting all skipped)"
    and ws: "map fst ws = regions"
  shows "collectedBy exec js regions ws rest (collect (mapToLower js) r all skipped)"
proof -
  from inv obtain rcv where
    sent: "mset (sentResults exec js ws) = mset rcv + mset (r # rest)" and
    all: "all = concat (map instances (filter succeeded rcv))" and
    skipped: "skipped = map region (filter (\<lambda>r. \<not> succeeded r) rcv)" and
    nf: "list_all (nonFatal (mapToLower js)) rcv"
    by (auto simp: collectedBy_def)
  have sent': "mset (sentResults exec js ws) = mset (rcv @ [r]) + mset rest"
    using sent by simp
  show ?thesis
  proof (cases "nonFatal (mapToLower js) r")
    case True
    then have "\<exists>rcv'. mset (sentResults exec js ws) = mset rcv' + mset rest \<and>
        (if succeeded r then all @ instances r else all) =
          concat (map instances (filter succeeded rcv')) \<and>
        (if succeeded r then skipped else skipped @ [region r]) =
          map region (filter (\<lambda>r. \<not> succeeded r) rcv') \<and>
        list_all (nonFatal (mapToLower js)) rcv'"
      using sent' all skipped nf by (intro exI [of _ "rcv @ [r]"]) simp
    with True show ?thesis
      by (auto simp: collectedBy_def collect_def nonFatal_def succeeded_def)
  next
    case False
    have "r \<in># mset (sentResults exec js ws)"
      using sent by simp
    then have "r \<in> set (map (regionResult exec js) regions)"
      using sentResults_subset [of exec js ws] ws by auto
    moreover have "\<not> list_all (nonFatal (mapToLower js)) (map (regionResult exec js) regions)"
      using calculation False by (auto simp: list_all_iff)
    ultimately have "goodReturn exec js regions (emptyResources, err r)"
      using False by (auto simp: goodReturn_def Let_def)
    with False show ?thesis
      by (auto simp: collectedBy_def collect_def nonFatal_def)
  qed
qed

lemma collectedBy_finish:
  assumes inv: "collectedBy exec js regions ws [] (Collecting all skipped)"
    and ws: "map fst ws = regions"
    and fin: "list_all (\<lambda>w. snd w = Finished) ws"
  shows "collectedBy exec js regions ws [] (Returned (finish all skipped))"
proof -
  let ?rs = "map (regionResult exec js) regions"
  from inv obtain rcv where
    sent: "mset (sentResults exec js ws) = mset rcv" and
    all: "all = concat (map instances (filter succeeded rcv))" and
    skipped: "skipped = map region (filter (\<lambda>r. \<not> succeeded r) rcv)" and
    nf: "list_all (nonFatal (mapToLower js)) rcv"
    by (auto simp: collectedBy_def)
  have "sentResults exec js ws = ?rs"
    using fin ws all_finished_sent [of ws exec js] by simp
  then have eq: "mset rcv = mset ?rs"
    using sent by simp
  have "list_all (nonFatal (mapToLower js)) ?rs"
    using list_all_mset_cong [OF eq nf] .
  moreover have "mset all = mset (concat (map instances (filter succeeded ?rs)))"
    unfolding all by (rule mset_concat_cong [OF eq])
  moreover have "mset skipped = mset (map region (filter (\<lambda>r. \<not> succeeded r) ?rs))"
    unfolding skipped by (rule mset_map_filter_cong [OF eq])
  ultimately have "goodReturn exec js regions (finish all skipped)"
    unfolding goodReturn_def Let_def by auto
  then show ?thesis
    by (simp add: collectedBy_def)
qed

lemma collected_step:
  assumes "collected exec js regions s" and "wellSpawned regions s" and "closedLate s"
    and "step exec js a s = Some s'"
  shows "collected exec js regions s'"
proof (cases a)
  case Spawn
  with assms show ?thesis
    by (auto simp: collected_def wellSpawned_def collectedBy_worker_same split: if_splits)
next
  case StartCollecting
  with assms show ?thesis
    by (auto simp: collected_def collectedBy_def split: if_splits)
next
  case (Acquire i)
  with assms show ?thesis
    by (auto simp: collected_def collectedBy_worker_same split: if_splits)
next
  case (Complete i)
  with assms show ?thesis
    by (auto simp: collected_def collectedBy_complete split: if_splits)
next
  case (Release i)
  with assms show ?thesis
    by (auto simp: collected_def collectedBy_worker_same split: if_splits)
next
  case (Done i)
  with assms show ?thesis
    by (auto simp: collected_def collectedBy_worker_same split: if_splits)
next
  case Close
  with assms show ?thesis
    by (auto simp: collected_def split: if_splits)
next
  case Receive
  show ?thesis
  proof (cases "coordinator s")
    case (Collecting all skipped)
    show ?thesis
    proof (cases "resultsCh s")
      case Nil
      with Receive Collecting assms show ?thesis
        by (auto simp: collected_def closedLate_def wellSpawned_def collectedBy_finish
            split: if_splits)
    next
      case (Cons r rest)
      with Receive Collecting assms show ?thesis
        by (auto simp: collected_def wellSpawned_def collectedBy_receive)
    qed
  qed (use Receive assms in auto)
qed

lemma err_regionResult: "err (regionResult exec js rgn) = regionError exec js rgn"
  by (simp add: regionResult_def regionError_def split: prod.split option.split)

lemma region_regionResult: "region (regionResult exec js rgn) = rgn"
  by (simp add: regionResult_def split: prod.split option.split)

lemma instances_regionResult:
  "regionError exec js rgn = None \<Longrightarrow>
     instances (regionResult exec js rgn) = regionRecords exec js rgn"
  by (auto simp add: regionResult_def regionError_def regionRecords_def
      split: prod.split option.split)

lemma invariant_start: "invariant exec js regions (start regions)"
  by (simp add: invariant_def start_def wellSpawned_def tokensHeld_def holding_def
      closedLate_def returnedClosed_def collected_def collectedBy_def sentResults_def
      comp_def)

lemma invariant_step:
  assumes "invariant exec js regions s" and "step exec js a s = Some s'"
  shows "invariant exec js regions s'"
proof -
  from assms(1) have ws: "wellSpawned regions s" and th: "tokensHeld s" and cl: "closedLate s"
    and rc: "returnedClosed s" and co: "collected exec js regions s"
    by (simp_all add: invariant_def)
  note st = assms(2)
  show ?thesis
    unfolding invariant_def
    using wellSpawned_step [OF ws st] tokensHeld_step [OF th ws st] closedLate_step [OF cl ws st]
      returnedClosed_step [OF rc st] collected_step [OF co ws cl st]
    by simp
qed

lemma invariant_run:
  assumes "invariant exec js regions s" and "run exec js sched s = Some s'"
  shows "invariant exec js regions s'"
  using assms
proof (induction sched arbitrary: s)
  case Nil
  then show ?case by simp
next
  case (Cons a sched)
  then show ?case
    by (auto split: option.splits dest: invariant_step)
qed

lemma reachable_invariant:
  "run exec js sched (start regions) = Some s \<Longrightarrow> invariant exec js regions s"
  using invariant_run [OF invariant_start] .

lemma inFlight_le_holding: "inFlight s \<le> holding s"
proof -
  have "length (filter P xs) \<le> length (filter (\<lambda>x. P x \<or> Q x) xs)" for P Q and xs :: "'a list"
    by (induction xs) auto
  then show ?thesis
    by (simp add: inFlight_def holding_def)
qed

lemma all_finished_inFlight:
  "list_all (\<lambda>w. snd w = Finished) (workers s) \<Longrightarrow> inFlight s = 0"
  by (auto simp: inFlight_def list_all_iff filter_empty_conv)

lemma returned_goodReturn:
  assumes "fst (listRegions exec js) = (regions, None)"
    and "getEC2InstancesAllRegions exec js sched = Some (x, calls)"
  shows "goodReturn exec js regions x"
proof -
  from assms obtain s where run: "run exec js sched (start regions) = Some s"
    and ret: "coordinator s = Returned x"
    by (auto simp: getEC2InstancesAllRegions_def split: prod.splits option.splits coordinator.splits)
  from reachable_invariant [OF run] ret show ?thesis
    by (simp add: invariant_def collected_def collectedBy_def)
qed

lemma succeeded_records:
  "concat (map instances (filter succeeded (map (regionResult exec js) regions))) =
   concat (map (regionRecords exec js) (filter (\<lambda>r. regionError exec js r = None) regions))"
  by (induction regions) (simp_all add: succeeded_def err_regionResult instances_regionResult)

lemma failed_regions:
  "map region (filter (\<lambda>r. \<not> succeeded r) (map (regionResult exec js) regions)) =
   filter (\<lambda>r. regionError exec js r \<noteq> None) regions"
  by (induction regions) (simp_all add: succeeded_def err_regionResult region_regionResult)

lemma nonFatal_regions:
  "list_all (nonFatal (mapToLower js)) (map (regionResult exec js) regions) \<longleftrightarrow>
   (\<forall>r\<in>set regions. regionError exec js r = None \<or> isAuthError (mapToLower js) (regionError exec js r))"
  by (simp add: list_all_iff nonFatal_def err_regionResult)

section \<open>Every run ends with the return of the call\<close>

lemma sum_rank_update:
  assumes "i < length ws" and "rank w < rank (snd (ws ! i))"
  shows "sum_list (map (\<lambda>w. rank (snd w)) (ws[i := (fst (ws ! i), w)])) <
         sum_list (map (\<lambda>w. rank (snd w)) ws)"
proof -
  have "sum_list (map (\<lambda>w. rank (snd w)) ws) =
      sum_list (map (\<lambda>w. rank (snd w)) (take i ws @ ws ! i # drop (Suc i) ws))"
    using nth_split [OF assms(1)] by simp
  then show ?thesis
    using assms by (simp add: upd_conv_take_nth_drop)
qed

lemma step_decreases:
  assumes "wellSpawned regions s" and "step exec js a s = Some s'"
  shows "remaining s' < remaining s"
proof (cases a)
  case Spawn
  then have i: "spawned s < length (workers s)" and w: "snd (workers s ! spawned s) = NotSpawned"
    and s': "s' = s\<lparr>workers := (workers s)[spawned s := (fst (workers s ! spawned s), Ready)],
                    spawned := Suc (spawned s)\<rparr>"
    using assms by (auto simp: wellSpawned_def split: if_splits)
  have "sum_list (map (\<lambda>w. rank (snd w))
          ((workers s)[spawned s := (fst (workers s ! spawned s), Ready)])) <
        sum_list (map (\<lambda>w. rank (snd w)) (workers s))"
    using i w by (intro sum_rank_update) simp_all
  then show ?thesis
    by (simp add: s' remaining_def)
next
  case StartCollecting
  with assms show ?thesis
    by (auto simp: remaining_def split: if_splits)
next
  case (Acquire i)
  then have i: "i < length (workers s)" and w: "snd (workers s ! i) = Ready"
    and s': "s' = s\<lparr>workers := (workers s)[i := (fst (workers s ! i), Running)],
                    sem := Suc (sem s),
                    invocations := invocations s @
                      snd (getEC2InstancesSingleRegion exec js (fst (workers s ! i)))\<rparr>"
    using assms by (auto split: if_splits)
  have "sum_list (map (\<lambda>w. rank (snd w)) ((workers s)[i := (fst (workers s ! i), Running)])) <
        sum_list (map (\<lambda>w. rank (snd w)) (workers s))"
    using i w by (intro sum_rank_update) simp_all
  then show ?thesis
    by (simp add: s' remaining_def)
next
  case (Complete i)
  then have i: "i < length (workers s)" and w: "snd (workers s ! i) = Running"
    and s': "s' = s\<lparr>workers := (workers s)[i := (fst (workers s ! i), Sent)],
                    resultsCh := resultsCh s @ [regionResult exec js (fst (workers s ! i))]\<rparr>"
    using assms by (auto split: if_splits)
  have "sum_list (map (\<lambda>w. rank (snd w)) ((workers s)[i := (fst (workers s ! i), Sent)])) <
        sum_list (map (\<lambda>w. rank (snd w)) (workers s))"
    using i w by (intro sum_rank_update) simp_all
  then show ?thesis
    by (simp add: s' remaining_def)
next
  case (Release i)
  then have i: "i < length (workers s)" and w: "snd (workers s ! i) = Sent"
    and s': "s' = s\<lparr>workers := (workers s)[i := (fst (workers s ! i), Released)],
                    sem := sem s - 1\<rparr>"
    using assms by (auto split: if_splits)
  have "sum_list (map (\<lambda>w. rank (snd w)) ((workers s)[i := (fst (workers s ! i), Released)])) <
        sum_list (map (\<lambda>w. rank (snd w)) (workers s))"
    using i w by (intro sum_rank_update) simp_all
  then show ?thesis
    by (simp add: s' remaining_def)
next
  case (Done i)
  then have i: "i < length (workers s)" and w: "snd (workers s ! i) = Released"
    and s': "s' = s\<lparr>workers := (workers s)[i := (fst (workers s ! i), Finished)]\<rparr>"
    using assms by (auto split: if_splits)
  have "sum_list (map (\<lambda>w. rank (snd w)) ((workers s)[i := (fst (workers s ! i), Finished)])) <
        sum_list (map (\<lambda>w. rank (snd w)) (workers s))"
    using i w by (intro sum_rank_update) simp_all
  then show ?thesis
    by (simp add: s' remaining_def)
next
  case Close
  with assms show ?thesis
    by (auto simp: remaining_def split: if_splits)
next
  case Receive
  with assms show ?thesis
    by (auto simp: remaining_def collect_def split: if_splits coordinator.splits list.splits)
qed

lemma spawnedFirst_step:
  assumes "spawnedFirst s" and "step exec js a s = Some s'"
  shows "spawnedFirst s'"
proof (cases a)
  case Spawn
  with assms show ?thesis
    by (auto simp: spawnedFirst_def nth_list_update less_Suc_eq split: if_splits)
next
  case Receive
  with assms show ?thesis
    by (auto simp: spawnedFirst_def collect_def split: if_splits coordinator.splits list.splits)
qed (use assms in \<open>auto simp: spawnedFirst_def nth_list_update split: if_splits\<close>)

lemma channelFits_step:
  assumes "channelFits s" and "wellSpawned regions s" and "step exec js a s = Some s'"
  shows "channelFits s'"
proof (cases a)
  case Spawn
  with assms show ?thesis
    by (auto simp: channelFits_def wellSpawned_def filter_length_update_same split: if_splits)
next
  case StartCollecting
  with assms show ?thesis
    by (auto simp: channelFits_def split: if_splits)
next
  case (Acquire i)
  with assms show ?thesis
    by (auto simp: channelFits_def filter_length_update_same split: if_splits)
next
  case (Complete i)
  with assms show ?thesis
    by (auto simp: channelFits_def filter_length_update_gain split: if_splits)
next
  case (Release i)
  with assms show ?thesis
    by (auto simp: channelFits_def filter_length_update_same split: if_splits)
next
  case (Done i)
  with assms show ?thesis
    by (auto simp: channelFits_def filter_length_update_same split: if_splits)
next
  case Close
  with assms show ?thesis
    by (auto simp: channelFits_def split: if_splits)
next
  case Receive
  with assms show ?thesis
    by (auto simp: channelFits_def split: if_splits coordinator.splits list.splits)
qed

lemma filter_length_less:
  assumes "i < length ws" and "\<not> P (ws ! i)"
  shows "length (filter P ws) < length ws"
proof -
  have "ws ! i \<in> set ws" using assms(1) by simp
  then have "filter P ws \<noteq> ws"
    using assms(2) by (metis filter_id_conv)
  then show ?thesis
    using length_filter_le [of P ws] by (metis filter_True le_neq_implies_less length_filter_less
        linorder_not_le)
qed

lemma holding_worker:
  assumes "0 < length (filter (\<lambda>w. snd w = Running \<or> snd w = Sent) ws)"
  shows "\<exists>j < length ws. snd (ws ! j) = Running \<or> snd (ws ! j) = Sent"
proof -
  from assms obtain w where "w \<in> set ws" and "snd w = Running \<or> snd w = Sent"
    by (metis (mono_tags, lifting) filter_False length_0_conv less_numeral_extra(3))
  then show ?thesis
    by (metis in_set_conv_nth)
qed

lemma not_stuck:
  assumes ws: "wellSpawned regions s" and th: "tokensHeld s" and sf: "spawnedFirst s"
    and cf: "channelFits s" and nr: "\<not> hasReturned (coordinator s)"
  shows "\<exists>a. step exec js a s \<noteq> None"
proof (cases "coordinator s")
  case Spawning
  show ?thesis
  proof (cases "spawned s < length (workers s)")
    case True
    with Spawning have "step exec js Spawn s \<noteq> None" by simp
    then show ?thesis ..
  next
    case False
    with ws have "spawned s = length (workers s)"
      by (simp add: wellSpawned_def)
    with Spawning have "step exec js StartCollecting s \<noteq> None" by simp
    then show ?thesis ..
  qed
next
  case (Returned x)
  with nr show ?thesis by simp
next
  case (Collecting all skipped)
  have complete: "step exec js (Complete j) s \<noteq> None"
    if "j < length (workers s)" and "snd (workers s ! j) = Running" for j
  proof -
    have "length (filter (\<lambda>w. hasSent (snd w)) (workers s)) < length (workers s)"
      using that by (intro filter_length_less [of j]) simp_all
    with cf have "length (resultsCh s) < length (workers s)"
      by (simp add: channelFits_def)
    with that show ?thesis by simp
  qed
  have release: "step exec js (Release j) s \<noteq> None"
    if "j < length (workers s)" and "snd (workers s ! j) = Sent" for j
  proof -
    have "\<not> (\<lambda>w. \<not> (snd w = Running \<or> snd w = Sent)) (workers s ! j)"
      using that by simp
    have "0 < length (filter (\<lambda>w. snd w = Running \<or> snd w = Sent) (workers s))"
      using that by (metis (mono_tags, lifting) filter_empty_conv length_greater_0_conv nth_mem)
    with th have "0 < sem s"
      by (simp add: tokensHeld_def holding_def)
    with that show ?thesis by simp
  qed
  show ?thesis
  proof (cases "resultsCh s")
    case (Cons r rest)
    with Collecting have "step exec js Receive s \<noteq> None" by simp
    then show ?thesis ..
  next
    case Nil
    show ?thesis
    proof (cases "closed s")
      case True
      with Collecting Nil have "step exec js Receive s \<noteq> None" by simp
      then show ?thesis ..
    next
      case False
      show ?thesis
      proof (cases "list_all (\<lambda>w. snd w = Finished) (workers s)")
        case True
        with Collecting False have "step exec js Close s \<noteq> None" by simp
        then show ?thesis ..
      next
        case unfinished: False
        then obtain i where i: "i < length (workers s)" and ni: "snd (workers s ! i) \<noteq> Finished"
          by (auto simp: list_all_length)
        have spawned: "snd (workers s ! i) \<noteq> NotSpawned"
          using sf Collecting i by (simp add: spawnedFirst_def)
        show ?thesis
        proof (cases "snd (workers s ! i)")
          case NotSpawned
          with spawned show ?thesis by simp
        next
          case Ready
          show ?thesis
          proof (cases "sem s < maxConcurrent")
            case True
            with i Ready have "step exec js (Acquire i) s \<noteq> None" by simp
            then show ?thesis ..
          next
            case False
            with th have "length (filter (\<lambda>w. snd w = Running \<or> snd w = Sent) (workers s)) = 5"
              unfolding tokensHeld_def holding_def maxConcurrent_def by linarith
            then have "0 < length (filter (\<lambda>w. snd w = Running \<or> snd w = Sent) (workers s))"
              by linarith
            then obtain j where "j < length (workers s)"
              and "snd (workers s ! j) = Running \<or> snd (workers s ! j) = Sent"
              using holding_worker by blast
            then show ?thesis
              using complete [of j] release [of j] by blast
          qed
        next
          case Running
          with i show ?thesis using complete [of i] by blast
        next
          case Sent
          with i show ?thesis using release [of i] by blast
        next
          case Released
          with i have "step exec js (Done i) s \<noteq> None" by simp
          then show ?thesis ..
        next
          case Finished
          with ni show ?thesis by simp
        qed
      qed
    qed
  qed
qed

lemma progressing_start: "progressing regions (start regions)"
  by (simp add: progressing_def start_def wellSpawned_def tokensHeld_def holding_def
      spawnedFirst_def channelFits_def comp_def)

lemma progressing_step:
  assumes "progressing regions s" and "step exec js a s = Some s'"
  shows "progressing regions s'"
proof -
  from assms(1) have ws: "wellSpawned regions s" and th: "tokensHeld s" and sf: "spawnedFirst s"
    and cf: "channelFits s"
    by (simp_all add: progressing_def)
  note st = assms(2)
  show ?thesis
    unfolding progressing_def
    using wellSpawned_step [OF ws st] tokensHeld_step [OF th ws st] spawnedFirst_step [OF sf st]
      channelFits_step [OF cf ws st]
    by simp
qed

lemma run_append:
  "run exec js (xs @ ys) s =
     (case run exec js xs s of None \<Rightarrow> None | Some s' \<Rightarrow> run exec js ys s')"
  by (induction xs arbitrary: s) (auto split: option.splits)

lemma progressing_run:
  assumes "progressing regions s" and "run exec js sched s = Some s'"
  shows "progressing regions s' \<and> length sched + remaining s' \<le> remaining s"
  using assms
proof (induction sched arbitrary: s)
  case Nil
  then show ?case by simp
next
  case (Cons a sched)
  from Cons.prems obtain s1 where st: "step exec js a s = Some s1"
    and rest: "run exec js sched s1 = Some s'"
    by (auto split: option.splits)
  have p1: "progressing regions s1"
    using progressing_step [OF Cons.prems(1) st] .
  from Cons.prems(1) have "wellSpawned regions s"
    by (simp add: progressing_def)
  then have "remaining s1 < remaining s"
    using st by (rule step_decreases)
  with Cons.IH [OF p1 rest] show ?case by simp
qed

lemma can_return:
  assumes "progressing regions s"
  shows "\<exists>sched s'. run exec js sched s = Some s' \<and> hasReturned (coordinator s')"
  using assms
proof (induction "remaining s" arbitrary: s rule: less_induct)
  case less
  show ?case
  proof (cases "hasReturned (coordinator s)")
    case True
    then have "run exec js [] s = Some s \<and> hasReturned (coordinator s)" by simp
    then show ?thesis by blast
  next
    case False
    from less.prems have "wellSpawned regions s" and "tokensHeld s" and "spawnedFirst s"
      and "channelFits s"
      by (simp_all add: progressing_def)
    from not_stuck [OF this False, of exec js] obtain a s1
      where st: "step exec js a s = Some s1"
      by auto
    have "remaining s1 < remaining s"
      using step_decreases [OF \<open>wellSpawned regions s\<close> st] .
    moreover have "progressing regions s1"
      using progressing_step [OF less.prems st] .
    ultimately obtain sched s' where "run exec js sched s1 = Some s'"
      and "hasReturned (coordinator s')"
      using less.hyps by blast
    with st have "run exec js (a # sched) s = Some s' \<and> hasReturned (coordinator s')"
      by simp
    then show ?thesis by blast
  qed
qed

lemma remaining_start: "remaining (start regions) = 10 * length regions + 3"
proof -
  have "sum_list (map (\<lambda>w. rank (snd w)) (map (\<lambda>r. (r, NotSpawned)) rs)) = 5 * length rs"
    for rs :: "string list"
    by (induction rs) simp_all
  then show ?thesis
    by (simp add: remaining_def start_def)
qed

text \<open>Every run of the aggregation is short and can be continued until the call returns.\<close>

lemma aggregation_returns:
  assumes "fst (listRegions exec js) = (regions, None)"
    and "run exec js sched (start regions) = Some s"
  shows "length sched \<le> 10 * length regions + 3 \<and>
         (\<exists>sched' x calls. getEC2InstancesAllRegions exec js (sched @ sched') = Some (x, calls))"
proof -
  have p: "progressing regions s" and len: "length sched + remaining s \<le> 10 * length regions + 3"
    using progressing_run [OF progressing_start assms(2)] by (simp_all add: remaining_start)
  from can_return [OF p] obtain sched' s' where run': "run exec js sched' s = Some s'"
    and ret: "hasReturned (coordinator s')"
    by blast
  from ret obtain x where x: "coordinator s' = Returned x"
    by (cases "coordinator s'") simp_all
  have "run exec js (sched @ sched') (start regions) = Some s'"
    using assms(2) run' by (simp add: run_append)
  then have "getEC2InstancesAllRegions exec js (sched @ sched') =
      Some (x, snd (listRegions exec js) @ invocations s')"
    using assms(1) x by (auto simp: getEC2InstancesAllRegions_def split: prod.splits)
  then have "\<exists>sched' x calls.
      getEC2InstancesAllRegions exec js (sched @ sched') = Some (x, calls)"
    by blast
  moreover from len have "length sched \<le> 10 * length regions + 3"
    by simp
  ultimately show ?thesis by simp
qed

section \<open>The fetch for one region\<close>

lemma collectionsFrom_eq:
  "collectionsFrom rgn versions i ids acc =
     Inr (acc @ map (\<lambda>k. \<lparr>rek_CollectionID = ids ! k,
                           rek_FaceModelVersion =
                             (if i + k < length versions then versions ! (i + k) else ''''),
                           rek_Region = rgn\<rparr>) [0..<length ids])"
proof (induction ids arbitrary: i acc)
  case Nil
  show ?case by simp
next
  case (Cons cid ids)
  show ?case
    by (simp add: Cons.IH index_def map_upt_Suc del: upt_Suc)
qed

text \<open>
  Claim C10. The projection of a list-collections response gives one record for each
  collection identifier, in order: the identifier at position \<open>i\<close> with the face model
  version at position \<open>i\<close> when the version list is that long, and with the empty
  string otherwise. It never reads outside the version list, so the single-region
  fetch never panics.
\<close>

theorem projectCollections_total:
  "projectCollections rgn resp =
     Inr (map (\<lambda>i. \<lparr>rek_CollectionID = CollectionIDs resp ! i,
                     rek_FaceModelVersion =
                       (if i < length (FaceModelVersions resp) then FaceModelVersions resp ! i
                        else ''''),
                     rek_Region = rgn\<rparr>)
            [0..<length (CollectionIDs resp)])
   \<and> (\<exists>r. getRekognitionCollectionsSingleRegion exec js rgn = Inr r)"
  by (simp add: projectCollections_def collectionsFrom_eq
      getRekognitionCollectionsSingleRegion_def RunJSON_def Let_def
      split: prod.split option.split sum.split)

text \<open>
  Claim C7. For a region selector that is not the sentinel \<open>all\<close> and names a region,
  the fetch invokes the executor exactly once, with the arguments for that region;
  when that invocation fails, the fetch returns the executor's error as it is,
  with the empty value, whether the error is of the skippable class or not.
\<close>

theorem single_region_one_call:
  assumes "ToLower (mapToLower js) rgn \<noteq> ''all''" and "rgn \<noteq> ''''"
  shows "map_option snd (getEC2Instances exec js sched rgn) =
           Some [[''ec2'', ''describe-instances'', ''--region'', rgn]] \<and>
         (exec [''ec2'', ''describe-instances'', ''--region'', rgn] = (out, Some e) \<longrightarrow>
            map_option fst (getEC2Instances exec js sched rgn) = Some (emptyResources, Some e))"
  using assms
  by (simp add: getEC2Instances_def getEC2InstancesSingleRegion_def RunJSON_def Let_def
      regionArgs_def split: prod.split option.split sum.split)

theorem single_region_one_call_witness:
  "ToLower (mapToLower stubLibrary) ''C'' \<noteq> ''all'' \<and> ''C'' \<noteq> '''' \<and>
   stubExec authFailure [''ec2'', ''describe-instances'', ''--region'', ''C''] = authFailure \<and>
   getEC2Instances (stubExec authFailure) stubLibrary [] ''C'' =
     Some ((emptyResources, snd authFailure),
           [[''ec2'', ''describe-instances'', ''--region'', ''C'']])"
proof -
  have h1: "ToLower (mapToLower stubLibrary) ''C'' \<noteq> ''all''" by code_simp
  have h2: "''C'' \<noteq> ''''" by simp
  have h3: "stubExec authFailure [''ec2'', ''describe-instances'', ''--region'', ''C''] =
      authFailure"
    by (simp add: stubExec_def)
  have "getEC2Instances (stubExec authFailure) stubLibrary [] ''C'' \<noteq> None"
    using h1 by (simp add: getEC2Instances_def)
  then obtain r calls where
    r: "getEC2Instances (stubExec authFailure) stubLibrary [] ''C'' = Some (r, calls)"
    by auto
  obtain e where e: "authFailure = ('''', Some e)"
    by (simp add: authFailure_def)
  from single_region_one_call [OF h1 h2, of "stubExec authFailure" "[]" "''''" e]
  have "calls = [[''ec2'', ''describe-instances'', ''--region'', ''C'']]"
    and "r = (emptyResources, Some e)"
    using r h3 e by simp_all
  with h1 h2 h3 r show ?thesis
    by (simp add: e)
qed

section \<open>The aggregate of all regions\<close>

text \<open>
  Claim C1. Let the region list be \<open>regions\<close>, and let every region either succeed or
  fail with a skippable error. Every run \<open>p\<close> of the call has at most ten steps for
  each region and three more, and it can go on until the call returns. Whatever the
  schedule, when the call has returned, it has returned no error; its records are
  those of the regions that succeeded, taken together; and its message is empty when
  no region failed, and otherwise the fixed text followed by the names of the failed
  regions, in some order, joined by a comma and a space.
\<close>

theorem aggregate_skips_auth_failures:
  assumes "fst (listRegions exec js) = (regions, None)"
    and "\<forall>r\<in>set regions. regionError exec js r = None \<or> isAuthError (mapToLower js) (regionError exec js r)"
  shows "(run exec js p (start regions) = Some s \<longrightarrow>
            length p \<le> 10 * length regions + 3 \<and>
            (\<exists>p' x calls'. getEC2InstancesAllRegions exec js (p @ p') = Some (x, calls'))) \<and>
         (getEC2InstancesAllRegions exec js sched = Some ((res, e), calls) \<longrightarrow>
            e = None \<and>
            mset (EC2 res) =
              mset (concat (map (regionRecords exec js)
                              (filter (\<lambda>r. regionError exec js r = None) regions))) \<and>
            (\<exists>names. mset names = mset (filter (\<lambda>r. regionError exec js r \<noteq> None) regions) \<and>
               Message res =
                 (if names = [] then ''''
                  else ''Skipped regions due to authentication errors: '' @ Join names '', '')))"
proof (rule conjI; rule impI)
  assume "run exec js p (start regions) = Some s"
  then show "length p \<le> 10 * length regions + 3 \<and>
      (\<exists>p' x calls'. getEC2InstancesAllRegions exec js (p @ p') = Some (x, calls'))"
    using aggregation_returns [OF assms(1)] by blast
next
  assume ret: "getEC2InstancesAllRegions exec js sched = Some ((res, e), calls)"
  have "goodReturn exec js regions (res, e)"
    using returned_goodReturn [OF assms(1) ret] .
  then obtain all skipped where x: "(res, e) = finish all skipped"
    and all: "mset all = mset (concat (map instances
        (filter succeeded (map (regionResult exec js) regions))))"
    and skipped: "mset skipped = mset (map region
        (filter (\<lambda>r. \<not> succeeded r) (map (regionResult exec js) regions)))"
    using assms(2) by (auto simp: goodReturn_def Let_def nonFatal_regions)
  from x have e: "e = None" and "EC2 res = all"
    and "Message res =
      (if skipped = [] then ''''
       else ''Skipped regions due to authentication errors: '' @ Join skipped '', '')"
    by (simp_all add: finish_def Let_def)
  then show "e = None \<and>
      mset (EC2 res) =
        mset (concat (map (regionRecords exec js)
                        (filter (\<lambda>r. regionError exec js r = None) regions))) \<and>
      (\<exists>names. mset names = mset (filter (\<lambda>r. regionError exec js r \<noteq> None) regions) \<and>
         Message res =
           (if names = [] then ''''
            else ''Skipped regions due to authentication errors: '' @ Join names '', ''))"
    using all skipped by (auto simp: succeeded_records failed_regions)
qed

theorem aggregate_skips_auth_failures_witness:
  "fst (listRegions (stubExec authFailure) stubLibrary) = ([''A'', ''B'', ''C''], None) \<and>
   regionError (stubExec authFailure) stubLibrary ''A'' = None \<and>
   regionError (stubExec authFailure) stubLibrary ''B'' = None \<and>
   isAuthError (mapToLower stubLibrary) (regionError (stubExec authFailure) stubLibrary ''C'') \<and>
   (\<exists>res calls.
      getEC2InstancesAllRegions (stubExec authFailure) stubLibrary schedule1 =
        Some ((res, None), calls) \<and>
      length (EC2 res) = 5 \<and>
      Message res = ''Skipped regions due to authentication errors: C'')"
proof -
  let ?E = "stubExec authFailure"
  have h1: "fst (listRegions ?E stubLibrary) = ([''A'', ''B'', ''C''], None)"
    by code_simp
  have a: "regionError ?E stubLibrary ''A'' = None" by code_simp
  have b: "regionError ?E stubLibrary ''B'' = None" by code_simp
  have c: "isAuthError (mapToLower stubLibrary) (regionError ?E stubLibrary ''C'')" by code_simp
  have c': "regionError ?E stubLibrary ''C'' =
      Some (ErrorString
        ''aws cli error: An error occurred (AuthFailure) when calling the DescribeInstances operation'')"
    by code_simp
  have h2: "\<forall>r\<in>set [''A'', ''B'', ''C''].
      regionError ?E stubLibrary r = None \<or> isAuthError (mapToLower stubLibrary) (regionError ?E stubLibrary r)"
    using a b c by simp
  have "getEC2InstancesAllRegions ?E stubLibrary schedule1 \<noteq> None"
    by code_simp
  then obtain res e calls where
    h3: "getEC2InstancesAllRegions ?E stubLibrary schedule1 = Some ((res, e), calls)"
    by auto
  have la: "length (regionRecords ?E stubLibrary ''A'') = 2" by code_simp
  have lb: "length (regionRecords ?E stubLibrary ''B'') = 3" by code_simp
  from aggregate_skips_auth_failures [OF h1 h2, where sched = schedule1 and res = res
      and e = e and calls = calls, THEN conjunct2, THEN mp, OF h3] obtain names where
    e: "e = None" and
    recs: "mset (EC2 res) = mset (concat (map (regionRecords ?E stubLibrary)
        (filter (\<lambda>r. regionError ?E stubLibrary r = None) [''A'', ''B'', ''C''])))" and
    names: "mset names = mset (filter (\<lambda>r. regionError ?E stubLibrary r \<noteq> None) [''A'', ''B'', ''C''])" and
    msg: "Message res = (if names = [] then ''''
       else ''Skipped regions due to authentication errors: '' @ Join names '', '')"
    by blast
  have "size (mset (EC2 res)) = 5"
    unfolding recs using a b c' la lb by simp
  then have len: "length (EC2 res) = 5" by simp
  have "names = [''C'']"
    using names a b c' by simp
  then have "Message res = ''Skipped regions due to authentication errors: C''"
    using msg by simp
  with h1 a b c h3 e len show ?thesis by blast
qed

text \<open>
  Claim C2. Let the call of some region fail with an error that is not skippable. Every
  run \<open>p\<close> of the call has at most ten steps for each region and three more, and it
  can go on until the call returns. Whatever the schedule and however many regions
  have succeeded, when the call has returned, it has returned the empty value
  together with the error of a region that failed in this way.
\<close>

theorem aggregate_fatal_error:
  assumes "fst (listRegions exec js) = (regions, None)"
    and "r \<in> set regions"
    and "regionError exec js r \<noteq> None" and "\<not> isAuthError (mapToLower js) (regionError exec js r)"
  shows "(run exec js p (start regions) = Some s \<longrightarrow>
            length p \<le> 10 * length regions + 3 \<and>
            (\<exists>p' x calls'. getEC2InstancesAllRegions exec js (p @ p') = Some (x, calls'))) \<and>
         (getEC2InstancesAllRegions exec js sched = Some ((res, e), calls) \<longrightarrow>
            res = emptyResources \<and> e \<noteq> None \<and> \<not> isAuthError (mapToLower js) e \<and>
            (\<exists>r'\<in>set regions. e = regionError exec js r'))"
proof (rule conjI; rule impI)
  assume "run exec js p (start regions) = Some s"
  then show "length p \<le> 10 * length regions + 3 \<and>
      (\<exists>p' x calls'. getEC2InstancesAllRegions exec js (p @ p') = Some (x, calls'))"
    using aggregation_returns [OF assms(1)] by blast
next
  assume ret: "getEC2InstancesAllRegions exec js sched = Some ((res, e), calls)"
  have "goodReturn exec js regions (res, e)"
    using returned_goodReturn [OF assms(1) ret] .
  moreover have "\<not> list_all (nonFatal (mapToLower js)) (map (regionResult exec js) regions)"
    using assms(2-4) by (auto simp: nonFatal_regions)
  ultimately show "res = emptyResources \<and> e \<noteq> None \<and> \<not> isAuthError (mapToLower js) e \<and>
      (\<exists>r'\<in>set regions. e = regionError exec js r')"
    by (auto simp: goodReturn_def Let_def nonFatal_def err_regionResult)
qed

theorem aggregate_fatal_error_witness:
  "fst (listRegions (stubExec internalError) stubLibrary) = ([''A'', ''B'', ''C''], None) \<and>
   regionError (stubExec internalError) stubLibrary ''C'' =
     Some (ErrorString ''aws cli error: internal server error'') \<and>
   \<not> isAuthError (mapToLower stubLibrary) (regionError (stubExec internalError) stubLibrary ''C'') \<and>
   (\<exists>calls.
      getEC2InstancesAllRegions (stubExec internalError) stubLibrary schedule2 =
        Some ((emptyResources, Some (ErrorString ''aws cli error: internal server error'')),
              calls))"
proof -
  let ?E = "stubExec internalError"
  have h1: "fst (listRegions ?E stubLibrary) = ([''A'', ''B'', ''C''], None)"
    by code_simp
  have a: "regionError ?E stubLibrary ''A'' = None" by code_simp
  have b: "regionError ?E stubLibrary ''B'' = None" by code_simp
  have c: "regionError ?E stubLibrary ''C'' =
      Some (ErrorString ''aws cli error: internal server error'')" by code_simp
  have c': "\<not> isAuthError (mapToLower stubLibrary) (regionError ?E stubLibrary ''C'')" by code_simp
  have "getEC2InstancesAllRegions ?E stubLibrary schedule2 \<noteq> None"
    by code_simp
  then obtain res e calls where
    h3: "getEC2InstancesAllRegions ?E stubLibrary schedule2 = Some ((res, e), calls)"
    by auto
  have m: "''C'' \<in> set [''A'', ''B'', ''C'']" by simp
  have c'': "regionError ?E stubLibrary ''C'' \<noteq> None"
    using c by simp
  have "res = emptyResources \<and> e \<noteq> None \<and> \<not> isAuthError (mapToLower stubLibrary) e \<and>
      (\<exists>r'\<in>set [''A'', ''B'', ''C'']. e = regionError ?E stubLibrary r')"
    using aggregate_fatal_error [OF h1 m c'' c', where sched = schedule2 and res = res
        and e = e and calls = calls, THEN conjunct2, THEN mp, OF h3] .
  then have "res = emptyResources" and "e = Some (ErrorString ''aws cli error: internal server error'')"
    using a b c by auto
  with h1 c c' h3 show ?thesis by blast
qed

section \<open>The bound on concurrent calls\<close>

text \<open>
  Claim C4, first as it is stated. The caller does not always wait for every call:
  under \<open>schedule2\<close> it has returned the error of region \<open>C\<close> while the call for
  region \<open>A\<close> is still in flight.
\<close>

theorem returns_while_call_in_flight:
  "run (stubExec internalError) stubLibrary schedule2 (start [''A'', ''B'', ''C'']) =
     Some returnedEarly \<and>
   coordinator returnedEarly =
     Returned (emptyResources, Some (ErrorString ''aws cli error: internal server error'')) \<and>
   inFlight returnedEarly = 1"
  by code_simp

text \<open>
  Claim C4, amended. In every state that the aggregation reaches, every call in flight
  holds a token of the semaphore, the tokens held are those in the semaphore, and
  there are at most five. When the caller has returned without an error, every worker
  is done and no call is in flight. In the theorem after it, five of six workers
  hold a token and the sixth cannot acquire one.
\<close>

theorem bounded_in_flight:
  assumes "run exec js sched (start regions) = Some s"
  shows "inFlight s \<le> holding s \<and> holding s = sem s \<and> sem s \<le> 5 \<and>
         (\<forall>res. coordinator s = Returned (res, None) \<longrightarrow>
            list_all (\<lambda>w. snd w = Finished) (workers s) \<and> inFlight s = 0)"
proof -
  have inv: "invariant exec js regions s"
    using reachable_invariant [OF assms] .
  then have "holding s = sem s" and "sem s \<le> 5"
    by (simp_all add: invariant_def tokensHeld_def maxConcurrent_def)
  moreover have "list_all (\<lambda>w. snd w = Finished) (workers s)"
    if "coordinator s = Returned (res, None)" for res
    using inv that by (simp add: invariant_def returnedClosed_def closedLate_def)
  ultimately show ?thesis
    using inFlight_le_holding [of s] all_finished_inFlight [of s] by blast
qed

theorem bounded_in_flight_witness:
  "run (stubExec authFailure) stubLibrary schedule1 (start [''A'', ''B'', ''C'']) \<noteq> None \<and>
   inFlight (the (run (stubExec authFailure) stubLibrary schedule1 (start [''A'', ''B'', ''C'']))) = 0 \<and>
   run (stubExec authFailure) stubLibrary schedule3 (start sixRegions) \<noteq> None \<and>
   inFlight (the (run (stubExec authFailure) stubLibrary schedule3 (start sixRegions))) = 5 \<and>
   sem (the (run (stubExec authFailure) stubLibrary schedule3 (start sixRegions))) = 5 \<and>
   run (stubExec authFailure) stubLibrary (schedule3 @ [Acquire 5]) (start sixRegions) = None"
proof -
  let ?E = "stubExec authFailure"
  have h: "run ?E stubLibrary schedule1 (start [''A'', ''B'', ''C'']) \<noteq> None"
    by code_simp
  then obtain s where s: "run ?E stubLibrary schedule1 (start [''A'', ''B'', ''C'']) = Some s"
    by auto
  have ret: "\<exists>res. coordinator s = Returned (res, None)"
  proof -
    have "case map_option coordinator (run ?E stubLibrary schedule1 (start [''A'', ''B'', ''C''])) of
        Some (Returned (res, None)) \<Rightarrow> True | _ \<Rightarrow> False"
      by code_simp
    then show ?thesis
      using s by (auto split: coordinator.splits option.splits)
  qed
  have h6: "run ?E stubLibrary schedule3 (start sixRegions) \<noteq> None"
    by code_simp
  then obtain t where t: "run ?E stubLibrary schedule3 (start sixRegions) = Some t"
    by auto
  have five: "inFlight (the (run ?E stubLibrary schedule3 (start sixRegions))) = 5"
    by code_simp
  have blocked: "run ?E stubLibrary (schedule3 @ [Acquire 5]) (start sixRegions) = None"
    by code_simp
  from bounded_in_flight [OF s] ret have "inFlight s = 0" by blast
  moreover from bounded_in_flight [OF t] five t have "sem t = 5" by simp
  ultimately show ?thesis
    using h s h6 t five blocked by simp
qed

section \<open>The cache\<close>

text \<open>
  Claim C5. A \<open>Get\<close> at time \<open>now\<close> for a key that was set at time \<open>t0\<close> returns the
  stored value and \<open>true\<close> as long as no more than the TTL has elapsed, and the zero
  value and \<open>false\<close> once more than the TTL has elapsed, with no \<open>Clear\<close> in between.
  A \<open>Get\<close> leaves the cache as it is; an entry is removed or replaced only by a \<open>Set\<close>
  for its key or by a \<open>Clear\<close>.
\<close>

theorem cache_ttl:
  fixes c c1 :: "'v Cache"
  shows "fst (Get now zero (Set t0 c k v) k) =
           (if now - t0 > ttl c then (zero, False) else (v, True)) \<and>
         snd (Get now zero c1 k') = c1 \<and>
         (data c1 k = Some e \<and> data (applyOp zero (now, op) c1) k \<noteq> Some e \<longrightarrow> touches k op)"
proof -
  have "fst (Get now zero (Set t0 c k v) k) =
      (if now - t0 > ttl c then (zero, False) else (v, True))"
    by (auto simp: Get_def Set_def)
  moreover have get: "snd (Get now' zero c1 k'') = c1" for now' k''
    by (simp add: Get_def split: option.split)
  moreover have "touches k op"
    if "data c1 k = Some e" and "data (applyOp zero (now, op) c1) k \<noteq> Some e"
    using that by (cases op) (auto simp: get Set_def Clear_def split: if_splits)
  ultimately show ?thesis by blast
qed

theorem cache_ttl_witness:
  "fst (Get 59 0 (Set 0 (New 60) ''k'' (7::nat)) ''k'') = (7, True) \<and>
   fst (Get 61 0 (Set 0 (New 60) ''k'' (7::nat)) ''k'') = (0, False) \<and>
   data (snd (Get 61 0 (Set 0 (New 60) ''k'' (7::nat)) ''k'')) ''k'' =
     Some \<lparr>val = 7, expiresAt = 60\<rparr> \<and>
   data (applyOp 0 (61, ClearOp) (Set 0 (New 60) ''k'' (7::nat))) ''k'' = None \<and>
   touches ''k'' (ClearOp :: nat cacheOp)"
proof -
  let ?c = "Set 0 (New 60) ''k'' (7::nat)"
  have d: "data ?c ''k'' = Some \<lparr>val = 7, expiresAt = 60\<rparr>"
    by (simp add: Set_def New_def)
  have n: "data (applyOp 0 (61, ClearOp) ?c) ''k'' = None"
    by (simp add: Clear_def)
  have t: "ttl (New 60 :: nat Cache) = 60"
    by (simp add: New_def)
  note at61 = cache_ttl [where now = 61 and zero = 0 and ?t0.0 = 0 and c = "New 60" and k = "''k''"
      and v = 7 and k' = "''k''" and ?c1.0 = ?c and e = "\<lparr>val = 7, expiresAt = 60\<rparr>"
      and op = ClearOp]
  note at59 = cache_ttl [where now = 59 and zero = 0 and ?t0.0 = 0 and c = "New 60" and k = "''k''"
      and v = 7 and k' = "''k''" and ?c1.0 = ?c and e = "\<lparr>val = 7, expiresAt = 60\<rparr>"
      and op = ClearOp]
  have "touches ''k'' (ClearOp :: nat cacheOp)"
    using at61 d n by simp
  moreover have "fst (Get 59 0 ?c ''k'') = (7, True)"
    using at59 t by simp
  moreover have "fst (Get 61 0 ?c ''k'') = (0, False)"
    using at61 t by simp
  moreover have "snd (Get 61 0 ?c ''k'') = ?c"
    using at61 by simp
  ultimately show ?thesis
    using d n by simp
qed

text \<open>
  Claim C9. When the inner service returns an error for a service and a region, the
  caching service leaves the cache as it is; the inner service is called on a cache
  miss, and then the caching service returns the empty value together with that
  error.
\<close>

theorem cached_error_not_stored:
  assumes "inner service rgn = (res, Some e)"
  shows "snd (cachedGetResources mapLower inner pm nowGet nowSet c service rgn) = c \<and>
         (\<not> snd (fst (Get nowGet emptyResources c (cacheKey mapLower pm service rgn))) \<longrightarrow>
            fst (cachedGetResources mapLower inner pm nowGet nowSet c service rgn) =
              (emptyResources, Some e))"
  using assms
  by (auto simp: cachedGetResources_def Let_def Get_def split: option.splits prod.splits)

theorem cached_error_not_stored_witness:
  "failingService ''ec2'' ''all'' =
     (emptyResources, Some (ErrorString ''aws cli error: internal server error'')) \<and>
   \<not> snd (fst (Get 0 emptyResources (New 60) (cacheKey stubMapToLower None ''ec2'' ''all''))) \<and>
   cachedGetResources stubMapToLower failingService None 0 1 (New 60) ''ec2'' ''all'' =
     ((emptyResources, Some (ErrorString ''aws cli error: internal server error'')), New 60)"
proof -
  have h: "failingService ''ec2'' ''all'' =
      (emptyResources, Some (ErrorString ''aws cli error: internal server error''))"
    by (simp add: failingService_def)
  have miss: "\<not> snd (fst (Get 0 emptyResources (New 60) (cacheKey stubMapToLower None ''ec2'' ''all'')))"
    by (simp add: Get_def New_def)
  from cached_error_not_stored [where mapLower = stubMapToLower and inner = failingService
      and service = "''ec2''" and rgn = "''all''" and pm = None and nowGet = 0 and nowSet = 1 and c = "New 60", OF h] miss
  have "snd (cachedGetResources stubMapToLower failingService None 0 1 (New 60) ''ec2'' ''all'') = New 60"
    and "fst (cachedGetResources stubMapToLower failingService None 0 1 (New 60) ''ec2'' ''all'') =
      (emptyResources, Some (ErrorString ''aws cli error: internal server error''))"
    by simp_all
  then have "cachedGetResources stubMapToLower failingService None 0 1 (New 60) ''ec2'' ''all'' =
      ((emptyResources, Some (ErrorString ''aws cli error: internal server error'')), New 60)"
    by (simp add: prod_eq_iff)
  with h miss show ?thesis by simp
qed

section \<open>The HTTP handlers\<close>

lemma HasPrefix_append: "HasPrefix (p @ s) p"
  by (simp add: HasPrefix_iff_prefix)

lemma TrimPrefix_append: "TrimPrefix (p @ s) p = s"
  by (simp add: TrimPrefix_def HasPrefix_append)

lemma Trim_id:
  assumes "s \<noteq> []" and "hd s \<notin> set cutset" and "last s \<notin> set cutset"
  shows "Trim s cutset = s"
proof -
  have "dropWhile (\<lambda>c. c \<in> set cutset) s = s"
    using assms by (cases s) auto
  moreover have "dropWhile (\<lambda>c. c \<in> set cutset) (rev s) = rev s"
    using assms by (cases "rev s") (auto simp: last_rev [symmetric] hd_rev)
  ultimately show ?thesis
    by (simp add: Trim_def)
qed

lemma splitFrom_no_sep:
  assumes "c \<notin> set s"
  shows "splitFrom [c] cur s = [cur @ s]"
  using assms
proof (induction s arbitrary: cur)
  case Nil
  show ?case by (subst splitFrom.simps) simp
next
  case (Cons x xs)
  then show ?case by (subst splitFrom.simps) auto
qed

lemma splitFrom_at_sep:
  assumes "c \<notin> set s"
  shows "splitFrom [c] cur (s @ c # rest) = (cur @ s) # splitFrom [c] [] rest"
  using assms
proof (induction s arbitrary: cur)
  case Nil
  show ?case by (subst splitFrom.simps) simp
next
  case (Cons x xs)
  then show ?case by (subst splitFrom.simps) auto
qed

lemma receiveSummaries_eq:
  "receiveSummaries rs summaries =
     summaries @
     map (\<lambda>r. \<lparr>rs_Service = svc_Key (sr_Svc r), rs_DisplayName = svc_DisplayName (sr_Svc r),
                rs_ResourceType = svc_ResourceKey (sr_Svc r), rs_Count = sr_Count r\<rparr>)
       (filter (\<lambda>r. sr_Err r = None) rs)"
  by (induction rs arbitrary: summaries) auto

lemma service_path_parts:
  assumes "service \<noteq> ''''" and "CHR ''/'' \<notin> set service"
  shows "Split (Trim (TrimPrefix (''/api/services/'' @ service @ ''/resources'') ''/api/services/'')
                  ''/'') ''/'' = [service, ''resources'']"
proof -
  have hd: "hd (service @ ''/resources'') \<notin> set ''/''"
    using assms by (cases service) auto
  have "Trim (service @ ''/resources'') ''/'' = service @ ''/resources''"
    using hd by (intro Trim_id) auto
  moreover have "splitFrom ''/'' [] (service @ CHR ''/'' # ''resources'') =
      ([] @ service) # splitFrom ''/'' [] ''resources''"
    using assms(2) by (rule splitFrom_at_sep)
  moreover have "splitFrom ''/'' [] ''resources'' = [[] @ ''resources'']"
    by (rule splitFrom_no_sep) simp
  moreover have "TrimPrefix (''/api/services/'' @ service @ ''/resources'') ''/api/services/'' =
      service @ ''/resources''"
    by (rule TrimPrefix_append)
  ultimately show ?thesis
    by (simp only: Split_def) simp
qed

lemma summarise_fst:
  "fst (summarise getResources svc) =
     (case getResources (svc_Key svc) ''all'' of
        (res, Some e) \<Rightarrow> \<lparr>sr_Svc = svc, sr_Count = 0, sr_Err = Some e\<rparr>
      | (res, None) \<Rightarrow>
          \<lparr>sr_Svc = svc, sr_Count = countFor (svc_ResourceKey svc) res, sr_Err = None\<rparr>)"
  by (simp add: summarise_def GetResources_def split: prod.splits option.splits)

lemma summarise_snd: "snd (summarise getResources svc) = [(svc_Key svc, ''all'')]"
  by (simp add: summarise_def GetResources_def split: prod.splits option.splits)

lemma received_summaries:
  "map (\<lambda>r. \<lparr>rs_Service = svc_Key (sr_Svc r), rs_DisplayName = svc_DisplayName (sr_Svc r),
              rs_ResourceType = svc_ResourceKey (sr_Svc r), rs_Count = sr_Count r\<rparr>)
     (filter (\<lambda>r. sr_Err r = None) (map (\<lambda>svc. fst (summarise getResources svc)) xs)) =
   map (\<lambda>svc. \<lparr>rs_Service = svc_Key svc, rs_DisplayName = svc_DisplayName svc,
                rs_ResourceType = svc_ResourceKey svc,
                rs_Count = countFor (svc_ResourceKey svc)
                             (fst (getResources (svc_Key svc) ''all''))\<rparr>)
     (filter (\<lambda>svc. snd (getResources (svc_Key svc) ''all'') = None) xs)"
  by (induction xs) (auto simp: summarise_fst split: prod.splits option.splits)

lemma rearranged:
  assumes "mset order = mset [0..<length xs]"
  shows "mset (map (\<lambda>i. xs ! i) order) = mset xs"
proof -
  have "mset (map (\<lambda>i. xs ! i) order) = image_mset (\<lambda>i. xs ! i) (mset order)"
    by simp
  also have "\<dots> = image_mset (\<lambda>i. xs ! i) (mset [0..<length xs])"
    using assms by simp
  also have "\<dots> = mset (map (\<lambda>i. xs ! i) [0..<length xs])"
    by simp
  also have "\<dots> = mset xs"
    by (simp add: map_nth)
  finally show ?thesis .
qed

text \<open>
  Claim C8, first as it is stated. The summary handler does not answer 500 when the
  calls of the resource service fail: with a service whose every call fails, called
  once for each of the six kinds, it answers 200 with an empty list of summaries.
\<close>

theorem summary_ok_when_all_calls_fail:
  "snd (failingService ''ec2'' ''all'') =
     Some (ErrorString ''aws cli error: internal server error'') \<and>
   snd (failingService ''rds'' ''all'') =
     Some (ErrorString ''aws cli error: internal server error'') \<and>
   handleResourcesSummary failingService [0, 1, 2, 3, 4, 5] summaryRequest =
     Some (writeJSON 200 (SummaryBody []),
           [(''ec2'', ''all''), (''vpc'', ''all''), (''eip'', ''all''), (''s3'', ''all''),
            (''rekognition'', ''all''), (''rds'', ''all'')])"
proof -
  have "mset [0, 1, 2, 3, 4, 5] = mset [0..<length servicesToCheck]"
    by code_simp
  then show ?thesis
    by (simp add: failingService_def handleResourcesSummary_def summaryRequest_def
        servicesToCheck_def summarise_def GetResources_def)
qed

text \<open>
  Claim C8, amended. For \<open>GET /api/services/{service}/resources\<close> the handler calls the
  resource service with the service of the path and the region of the query; it
  answers 500 with the fixed error text and the message of the error as details when
  the call fails, and 200 with the resources otherwise. For \<open>GET\<close> the summary handler
  calls the resource service exactly once for each of the six supported kinds, with
  the region selector \<open>all\<close>, in whatever order \<open>order\<close> the calls complete; it always
  answers 200, never 500; the body lists, in the order of completion, one entry with
  the count for each kind whose call succeeded and no entry for a kind whose call
  failed, so that the entries are those of the succeeding kinds of \<open>servicesToCheck\<close>,
  each once.
\<close>

theorem resource_handlers_status:
  assumes "Method r = ''GET''"
    and "Path r = ''/api/services/'' @ service @ ''/resources''"
    and "service \<noteq> ''''" and "CHR ''/'' \<notin> set service"
    and "Method r' = ''GET''"
    and "mset order = mset [0..<length servicesToCheck]"
  shows "handleServiceResources getResources r =
           (case getResources service (Query r ''region'') of
              (res, Some e) \<Rightarrow>
                writeJSON 500
                  (ErrorBody \<lparr>er_Error = ''Failed to fetch resources'', er_Details = Error e\<rparr>)
            | (res, None) \<Rightarrow> writeJSON 200 (ResourcesBody res)) \<and>
         (\<exists>summaries calls.
            handleResourcesSummary getResources order r' =
              Some (writeJSON 200 (SummaryBody summaries), calls) \<and>
            calls = map (\<lambda>i. (svc_Key (servicesToCheck ! i), ''all'')) order \<and>
            mset calls =
              {#(''ec2'', ''all''), (''vpc'', ''all''), (''eip'', ''all''), (''s3'', ''all''),
                (''rekognition'', ''all''), (''rds'', ''all'')#} \<and>
            summaries =
              map (\<lambda>svc. \<lparr>rs_Service = svc_Key svc, rs_DisplayName = svc_DisplayName svc,
                           rs_ResourceType = svc_ResourceKey svc,
                           rs_Count = countFor (svc_ResourceKey svc)
                                        (fst (getResources (svc_Key svc) ''all''))\<rparr>)
                (filter (\<lambda>svc. snd (getResources (svc_Key svc) ''all'') = None)
                   (map (\<lambda>i. servicesToCheck ! i) order)) \<and>
            mset summaries =
              mset (map (\<lambda>svc. \<lparr>rs_Service = svc_Key svc, rs_DisplayName = svc_DisplayName svc,
                                 rs_ResourceType = svc_ResourceKey svc,
                                 rs_Count = countFor (svc_ResourceKey svc)
                                              (fst (getResources (svc_Key svc) ''all''))\<rparr>)
                      (filter (\<lambda>svc. snd (getResources (svc_Key svc) ''all'') = None)
                         servicesToCheck)))"
proof -
  let ?ok = "\<lambda>svc. snd (getResources (svc_Key svc) ''all'') = None"
  let ?entry = "\<lambda>svc. \<lparr>rs_Service = svc_Key svc, rs_DisplayName = svc_DisplayName svc,
                        rs_ResourceType = svc_ResourceKey svc,
                        rs_Count = countFor (svc_ResourceKey svc)
                                     (fst (getResources (svc_Key svc) ''all''))\<rparr>"
  let ?arrival = "map (\<lambda>i. servicesToCheck ! i) order"
  have parts: "Split (Trim (TrimPrefix (Path r) ''/api/services/'') ''/'') ''/'' =
      [service, ''resources'']"
    using service_path_parts [OF assms(3,4)] assms(2) by simp
  have nonempty: "TrimPrefix (Path r) ''/api/services/'' \<noteq> ''''"
    using assms(2) TrimPrefix_append [of "''/api/services/''" "service @ ''/resources''"]
    by simp
  have one: "handleServiceResources getResources r =
      (case getResources service (Query r ''region'') of
         (res, Some e) \<Rightarrow>
           writeJSON 500
             (ErrorBody \<lparr>er_Error = ''Failed to fetch resources'', er_Details = Error e\<rparr>)
       | (res, None) \<Rightarrow> writeJSON 200 (ResourcesBody res))"
    unfolding handleServiceResources_def Let_def using assms(1) nonempty parts
    by simp
  have arrival: "mset ?arrival = mset servicesToCheck"
    using assms(6) by (rule rearranged)
  have body: "receiveSummaries
        (map fst (map (\<lambda>i. summarise getResources (servicesToCheck ! i)) order)) [] =
      map ?entry (filter ?ok ?arrival)"
    using received_summaries [of getResources ?arrival]
    by (simp add: receiveSummaries_eq comp_def)
  have calls: "concat (map snd (map (\<lambda>i. summarise getResources (servicesToCheck ! i)) order)) =
      map (\<lambda>i. (svc_Key (servicesToCheck ! i), ''all'')) order"
    by (induction order) (simp_all add: summarise_snd)
  have handler: "handleResourcesSummary getResources order r' =
      Some (writeJSON 200 (SummaryBody (map ?entry (filter ?ok ?arrival))),
            map (\<lambda>i. (svc_Key (servicesToCheck ! i), ''all'')) order)"
    using assms(5,6) body calls by (simp add: handleResourcesSummary_def Let_def)
  have "mset (map (\<lambda>i. (svc_Key (servicesToCheck ! i), ''all'')) order) =
      image_mset (\<lambda>svc. (svc_Key svc, ''all'')) (mset ?arrival)"
    by (simp add: multiset.map_comp comp_def)
  also have "\<dots> = image_mset (\<lambda>svc. (svc_Key svc, ''all'')) (mset servicesToCheck)"
    by (simp only: arrival)
  also have "\<dots> = {#(''ec2'', ''all''), (''vpc'', ''all''), (''eip'', ''all''), (''s3'', ''all''),
                (''rekognition'', ''all''), (''rds'', ''all'')#}"
    by (simp add: servicesToCheck_def)
  finally have once: "mset (map (\<lambda>i. (svc_Key (servicesToCheck ! i), ''all'')) order) =
      {#(''ec2'', ''all''), (''vpc'', ''all''), (''eip'', ''all''), (''s3'', ''all''),
        (''rekognition'', ''all''), (''rds'', ''all'')#}" .
  have "mset (map ?entry (filter ?ok ?arrival)) =
      image_mset ?entry (filter_mset ?ok (mset ?arrival))"
    by simp
  also have "\<dots> = image_mset ?entry (filter_mset ?ok (mset servicesToCheck))"
    by (simp only: arrival)
  also have "\<dots> = mset (map ?entry (filter ?ok servicesToCheck))"
    by simp
  finally have entries: "mset (map ?entry (filter ?ok ?arrival)) =
      mset (map ?entry (filter ?ok servicesToCheck))" .
  from one handler once entries show ?thesis
    by blast
qed

theorem resource_handlers_status_witness:
  "Method resourcesRequest = ''GET'' \<and>
   Path resourcesRequest = ''/api/services/'' @ ''ec2'' @ ''/resources'' \<and>
   CHR ''/'' \<notin> set ''ec2'' \<and>
   Method summaryRequest = ''GET'' \<and>
   mset completionOrder = mset [0..<length servicesToCheck] \<and>
   handleServiceResources failingService resourcesRequest =
     writeJSON 500
       (ErrorBody \<lparr>er_Error = ''Failed to fetch resources'',
                   er_Details = ''aws cli error: internal server error''\<rparr>) \<and>
   handleServiceResources mixedService resourcesRequest =
     writeJSON 200 (ResourcesBody (fst (mixedService ''ec2'' ''all''))) \<and>
   handleResourcesSummary mixedService completionOrder summaryRequest =
     Some (writeJSON 200
             (SummaryBody
                [\<lparr>rs_Service = ''s3'', rs_DisplayName = ''S3'', rs_ResourceType = ''s3Buckets'',
                  rs_Count = 1\<rparr>,
                 \<lparr>rs_Service = ''ec2'', rs_DisplayName = ''EC2'',
                  rs_ResourceType = ''ec2Instances'', rs_Count = 2\<rparr>,
                 \<lparr>rs_Service = ''vpc'', rs_DisplayName = ''VPC'', rs_ResourceType = ''vpcs'',
                  rs_Count = 0\<rparr>]),
           [(''s3'', ''all''), (''ec2'', ''all''), (''rds'', ''all''), (''vpc'', ''all''),
            (''rekognition'', ''all''), (''eip'', ''all'')])"
proof -
  have h1: "Method resourcesRequest = ''GET''"
    by (simp add: resourcesRequest_def)
  have h2: "Path resourcesRequest = ''/api/services/'' @ ''ec2'' @ ''/resources''"
    by (simp add: resourcesRequest_def)
  have h3: "''ec2'' \<noteq> []" by simp
  have h4: "CHR ''/'' \<notin> set ''ec2''" by simp
  have h5: "Method summaryRequest = ''GET''"
    by (simp add: summaryRequest_def)
  have h6: "mset completionOrder = mset [0..<length servicesToCheck]"
    by code_simp
  have q: "Query resourcesRequest ''region'' = ''all''"
    by (simp add: resourcesRequest_def)
  have failing: "handleServiceResources failingService resourcesRequest =
     writeJSON 500
       (ErrorBody \<lparr>er_Error = ''Failed to fetch resources'',
                   er_Details = ''aws cli error: internal server error''\<rparr>)"
    using resource_handlers_status [OF h1 h2 h3 h4 h5 h6, of failingService]
    by (simp add: failingService_def)
  have mixed: "handleServiceResources mixedService resourcesRequest =
     writeJSON 200 (ResourcesBody (fst (mixedService ''ec2'' ''all'')))"
    using resource_handlers_status [OF h1 h2 h3 h4 h5 h6, of mixedService]
    by (simp add: q mixedService_def)
  have summary: "handleResourcesSummary mixedService completionOrder summaryRequest =
     Some (writeJSON 200
             (SummaryBody
                [\<lparr>rs_Service = ''s3'', rs_DisplayName = ''S3'', rs_ResourceType = ''s3Buckets'',
                  rs_Count = 1\<rparr>,
                 \<lparr>rs_Service = ''ec2'', rs_DisplayName = ''EC2'',
                  rs_ResourceType = ''ec2Instances'', rs_Count = 2\<rparr>,
                 \<lparr>rs_Service = ''vpc'', rs_DisplayName = ''VPC'', rs_ResourceType = ''vpcs'',
                  rs_Count = 0\<rparr>]),
           [(''s3'', ''all''), (''ec2'', ''all''), (''rds'', ''all''), (''vpc'', ''all''),
            (''rekognition'', ''all''), (''eip'', ''all'')])"
    using resource_handlers_status [OF h1 h2 h3 h4 h5 h6, of mixedService]
    by (simp add: completionOrder_def servicesToCheck_def mixedService_def countFor_def
        emptyResources_def)
  from h1 h2 h4 h5 h6 failing mixed summary show ?thesis
    by simp
qed

section \<open>The cost totals\<close>




end
